theory Spec2Isabelle
  imports Main "HOL-Library.Word"
begin

section \<open>JavaScript values used by the encoding analyzer\<close>

text \<open>
  A JavaScript string is a sequence of UTF-16 code units. The renderings the analyzer
  produces (hexadecimal, binary, the code point label) are pure ASCII and are kept as
  HOL strings; the text typed by the user and the characters cut from it are code-unit
  lists. Array elements are JavaScript numbers; all of them are non-negative integers
  here, so they are naturals.
\<close>

type_synonym jsstring = "16 word list"

datatype js_error = LibraryError | TypeError

text \<open>The value of \<^verbatim>\<open>sjis && !(...)\<close>: \<^verbatim>\<open>null\<close> when \<^verbatim>\<open>sjis\<close> is null, a boolean otherwise.\<close>

datatype js_flag = JNull | JBool bool

fun truthy :: "js_flag \<Rightarrow> bool" where
  "truthy JNull = False"
| "truthy (JBool b) = b"

subsection \<open>Number.prototype.toString(radix), toUpperCase, padStart, join\<close>

text \<open>
  \<^verbatim>\<open>n.toString(radix)\<close> on a non-negative integer: the digits, most significant first,
  lower case, \<^verbatim>\<open>"0"\<close> for zero. The analyzer calls it with radix 16 and radix 2 only.
\<close>

definition digit_char :: "nat \<Rightarrow> char" where
  "digit_char d = ''0123456789abcdefghijklmnopqrstuvwxyz'' ! d"

function toString_radix :: "nat \<Rightarrow> nat \<Rightarrow> string" where
  "toString_radix r n =
     (if r < 2 \<or> n < r then [digit_char n]
      else toString_radix r (n div r) @ [digit_char (n mod r)])"
  by pat_completeness auto
termination
  by (relation "measure (\<lambda>(r, n). n)") auto

declare toString_radix.simps [simp del]

definition upper_char :: "char \<Rightarrow> char" where
  "upper_char c =
     (case map_of (zip ''abcdefghijklmnopqrstuvwxyz'' ''ABCDEFGHIJKLMNOPQRSTUVWXYZ'') c of
        Some u \<Rightarrow> u | None \<Rightarrow> c)"

definition toUpperCase :: "string \<Rightarrow> string" where
  "toUpperCase s = map upper_char s"

definition padStart :: "nat \<Rightarrow> char \<Rightarrow> string \<Rightarrow> string" where
  "padStart n p s = replicate (n - length s) p @ s"

fun join :: "string \<Rightarrow> string list \<Rightarrow> string" where
  "join sep [] = []"
| "join sep [x] = x"
| "join sep (x # y # ys) = x @ sep @ join sep (y # ys)"

subsection \<open>toHexString and toBinaryString\<close>

text \<open>
  \<open>hex_byte\<close> and \<open>bin_byte\<close> are the callbacks
  \<^verbatim>\<open>b => b.toString(16).toUpperCase().padStart(2, '0')\<close> and
  \<^verbatim>\<open>b => b.toString(2).padStart(8, '0')\<close>. The inlined version guards against a null
  argument (\<^verbatim>\<open>if (!byteArray) return ""\<close>); an array, even an empty one, is truthy.
\<close>

definition hex_byte :: "nat \<Rightarrow> string" where
  "hex_byte b = padStart 2 CHR ''0'' (toUpperCase (toString_radix 16 b))"

definition bin_byte :: "nat \<Rightarrow> string" where
  "bin_byte b = padStart 8 CHR ''0'' (toString_radix 2 b)"

definition toHexString :: "nat list option \<Rightarrow> string" where
  "toHexString byteArray =
     (case byteArray of None \<Rightarrow> [] | Some bs \<Rightarrow> join '' '' (map hex_byte bs))"

definition toBinaryString :: "nat list option \<Rightarrow> string" where
  "toBinaryString byteArray =
     (case byteArray of None \<Rightarrow> [] | Some bs \<Rightarrow> join '' '' (map bin_byte bs))"

subsection \<open>Reading a rendering back\<close>

text \<open>
  The re-parser the formatting round trip is stated against: the empty string holds no
  group; any other string is cut at every single space and each group is read as a
  numeral in the given base (binary or hexadecimal digits, either case).
\<close>

fun split_on :: "char \<Rightarrow> string \<Rightarrow> string list" where
  "split_on sep [] = [[]]"
| "split_on sep (c # cs) =
     (if c = sep then [] # split_on sep cs
      else (case split_on sep cs of [] \<Rightarrow> [[c]] | g # gs \<Rightarrow> (c # g) # gs))"

definition digit_value :: "char \<Rightarrow> nat" where
  "digit_value c =
     (case map_of
        [(CHR ''0'', 0), (CHR ''1'', 1), (CHR ''2'', 2), (CHR ''3'', 3), (CHR ''4'', 4),
         (CHR ''5'', 5), (CHR ''6'', 6), (CHR ''7'', 7), (CHR ''8'', 8), (CHR ''9'', 9),
         (CHR ''a'', 10), (CHR ''b'', 11), (CHR ''c'', 12), (CHR ''d'', 13), (CHR ''e'', 14),
         (CHR ''f'', 15), (CHR ''A'', 10), (CHR ''B'', 11), (CHR ''C'', 12), (CHR ''D'', 13),
         (CHR ''E'', 14), (CHR ''F'', 15)] c of
        Some d \<Rightarrow> d
      | None \<Rightarrow> 0)"

definition parse_radix :: "nat \<Rightarrow> string \<Rightarrow> nat" where
  "parse_radix r s = foldl (\<lambda>acc c. acc * r + digit_value c) 0 s"

definition parse_groups :: "nat \<Rightarrow> string \<Rightarrow> nat list" where
  "parse_groups r s = (if s = [] then [] else map (parse_radix r) (split_on CHR '' '' s))"

section \<open>Strings as sequences of code points\<close>

definition is_lead :: "16 word \<Rightarrow> bool" where
  "is_lead u = (0xD800 \<le> u \<and> u \<le> 0xDBFF)"

definition is_trail :: "16 word \<Rightarrow> bool" where
  "is_trail u = (0xDC00 \<le> u \<and> u \<le> 0xDFFF)"

definition pair_code_point :: "16 word \<Rightarrow> 16 word \<Rightarrow> nat" where
  "pair_code_point u v = (unat u - 0xD800) * 0x400 + (unat v - 0xDC00) + 0x10000"

text \<open>
  \<^verbatim>\<open>Array.from(text)\<close> runs the string iterator: a lead surrogate followed by a trail
  surrogate is one element of two code units, every other code unit (a lone surrogate
  too) is an element of its own.
\<close>

fun array_from :: "jsstring \<Rightarrow> jsstring list" where
  "array_from [] = []"
| "array_from [u] = [[u]]"
| "array_from (u # v # rest) =
     (if is_lead u \<and> is_trail v then [u, v] # array_from rest
      else [u] # array_from (v # rest))"

text \<open>\<^verbatim>\<open>str.codePointAt(0)\<close>: \<^verbatim>\<open>undefined\<close> on the empty string.\<close>

fun codePointAt0 :: "jsstring \<Rightarrow> nat option" where
  "codePointAt0 [] = None"
| "codePointAt0 [u] = Some (unat u)"
| "codePointAt0 (u # v # rest) =
     Some (if is_lead u \<and> is_trail v then pair_code_point u v else unat u)"

text \<open>
  \<^verbatim>\<open>new TextEncoder().encode(str)\<close>: the string is read code point by code point, a
  lone surrogate is replaced by U+FFFD, and each scalar value is written in UTF-8.
\<close>

fun code_points :: "jsstring \<Rightarrow> nat list" where
  "code_points [] = []"
| "code_points [u] = [unat u]"
| "code_points (u # v # rest) =
     (if is_lead u \<and> is_trail v then pair_code_point u v # code_points rest
      else unat u # code_points (v # rest))"

definition scalar_value :: "nat \<Rightarrow> nat" where
  "scalar_value cp = (if 0xD800 \<le> cp \<and> cp \<le> 0xDFFF then 0xFFFD else cp)"

definition utf8_bytes :: "nat \<Rightarrow> nat list" where
  "utf8_bytes cp =
     (if cp < 0x80 then [cp]
      else if cp < 0x800 then [0xC0 + cp div 0x40, 0x80 + cp mod 0x40]
      else if cp < 0x10000 then
        [0xE0 + cp div 0x1000, 0x80 + (cp div 0x40) mod 0x40, 0x80 + cp mod 0x40]
      else
        [0xF0 + cp div 0x40000, 0x80 + (cp div 0x1000) mod 0x40,
         0x80 + (cp div 0x40) mod 0x40, 0x80 + cp mod 0x40])"

definition toUTF8Array :: "jsstring \<Rightarrow> nat list" where
  "toUTF8Array str = concat (map (\<lambda>cp. utf8_bytes (scalar_value cp)) (code_points str))"

section \<open>The legacy codec\<close>

text \<open>
  \<^verbatim>\<open>window.Encoding\<close> is the third-party Shift-JIS library, loaded by the page or
  absent. Its tables are not part of the repository: the library is a parameter, a record
  of the calls the analyzer makes. Every call may throw. \<^verbatim>\<open>convert\<close> is called with an
  array result (\<^verbatim>\<open>type: 'array'\<close>, or no \<^verbatim>\<open>type\<close> on an array argument) and with a string
  result (\<^verbatim>\<open>type: 'string'\<close>); the arguments after the data are \<^verbatim>\<open>to\<close> and \<^verbatim>\<open>from\<close>.
\<close>

datatype encoding_name = SJIS | UNICODE | UTF8

record encoding_lib =
  stringToCode :: "jsstring \<Rightarrow> js_error + nat list"
  convert_array :: "nat list \<Rightarrow> encoding_name \<Rightarrow> encoding_name \<Rightarrow> js_error + nat list"
  convert_string :: "nat list \<Rightarrow> encoding_name \<Rightarrow> encoding_name \<Rightarrow> js_error + jsstring"

text \<open>
  The inlined \<^verbatim>\<open>toSJISArray\<close>: \<^verbatim>\<open>null\<close> when the library is absent or when any of the
  three calls throws. The string converted back is compared with the input, and both
  branches of the comparison return the converted array.
\<close>

definition toSJISArray :: "encoding_lib option \<Rightarrow> jsstring \<Rightarrow> nat list option" where
  "toSJISArray EncodingLib str =
     (case EncodingLib of
        None \<Rightarrow> None
      | Some lib \<Rightarrow>
         (case stringToCode lib str of
            Inl e \<Rightarrow> None
          | Inr unicodeArray \<Rightarrow>
             (case convert_array lib unicodeArray SJIS UNICODE of
                Inl e \<Rightarrow> None
              | Inr sjisArray \<Rightarrow>
                 (case convert_string lib sjisArray UNICODE SJIS of
                    Inl e \<Rightarrow> None
                  | Inr reversed \<Rightarrow>
                     (if reversed \<noteq> str then Some sjisArray else Some sjisArray)))))"

section \<open>The analyzer\<close>

record byte_view =
  bytes :: "nat list"
  length_f :: nat
  hex :: string
  binary :: string

record sjis_view = byte_view +
  isValid :: js_flag

record char_record =
  id_f :: nat
  char_f :: jsstring
  codePoint :: string
  utf8 :: byte_view
  sjis :: sjis_view

definition codePoint_label :: "nat \<Rightarrow> string" where
  "codePoint_label cp = ''U+'' @ padStart 4 CHR ''0'' (toUpperCase (toString_radix 16 cp))"

definition isSjisValid :: "nat list option \<Rightarrow> jsstring \<Rightarrow> js_flag" where
  "isSjisValid sjis_arr char =
     (case sjis_arr of
        None \<Rightarrow> JNull
      | Some s \<Rightarrow> JBool (\<not> (length s = 1 \<and> s ! 0 = 0x3F \<and> char \<noteq> [0x3F])))"

text \<open>
  The callback of \<^verbatim>\<open>chars.map\<close>. \<^verbatim>\<open>char.codePointAt(0).toString(16)\<close> throws a TypeError
  when \<^verbatim>\<open>codePointAt\<close> returns \<^verbatim>\<open>undefined\<close>; it is the only call outside a
  \<^verbatim>\<open>try\<close> that can throw.
\<close>

definition analyzeChar :: "encoding_lib option \<Rightarrow> jsstring \<Rightarrow> nat \<Rightarrow> js_error + char_record" where
  "analyzeChar EncodingLib char index =
     (let utf8_arr = toUTF8Array char;
          sjis_arr = toSJISArray EncodingLib char;
          valid = isSjisValid sjis_arr char
      in case codePointAt0 char of
           None \<Rightarrow> Inl TypeError
         | Some cp \<Rightarrow>
             Inr \<lparr> id_f = index,
                   char_f = char,
                   codePoint = codePoint_label cp,
                   utf8 = \<lparr> bytes = utf8_arr,
                            length_f = length utf8_arr,
                            hex = toHexString (Some utf8_arr),
                            binary = toBinaryString (Some utf8_arr) \<rparr>,
                   sjis = \<lparr> bytes = (case sjis_arr of None \<Rightarrow> [] | Some s \<Rightarrow> s),
                            length_f = (if truthy valid
                                        then (case sjis_arr of None \<Rightarrow> 0 | Some s \<Rightarrow> length s)
                                        else 0),
                            hex = toHexString (Some (case sjis_arr of None \<Rightarrow> [] | Some s \<Rightarrow> s)),
                            binary = toBinaryString (Some (case sjis_arr of None \<Rightarrow> [] | Some s \<Rightarrow> s)),
                            isValid = valid \<rparr> \<rparr>)"

text \<open>\<^verbatim>\<open>Array.prototype.map\<close> with a callback that may throw: the first throw ends the call.\<close>

fun map_indexed :: "('a \<Rightarrow> nat \<Rightarrow> js_error + 'b) \<Rightarrow> nat \<Rightarrow> 'a list \<Rightarrow> js_error + 'b list" where
  "map_indexed f i [] = Inr []"
| "map_indexed f i (x # xs) =
     (case f x i of
        Inl e \<Rightarrow> Inl e
      | Inr y \<Rightarrow> (case map_indexed f (Suc i) xs of Inl e \<Rightarrow> Inl e | Inr ys \<Rightarrow> Inr (y # ys)))"

definition analyzeText :: "encoding_lib option \<Rightarrow> jsstring \<Rightarrow> js_error + char_record list" where
  "analyzeText EncodingLib text =
     (if text = [] then Inr []
      else map_indexed (analyzeChar EncodingLib) 0 (array_from text))"

subsection \<open>The aggregates of the converter view\<close>

definition totalUtf8 :: "char_record list \<Rightarrow> nat" where
  "totalUtf8 analysis = foldl (\<lambda>acc item. acc + length_f (utf8 item)) 0 analysis"

definition totalSjis :: "char_record list \<Rightarrow> nat" where
  "totalSjis analysis = foldl (\<lambda>acc item. acc + length_f (sjis item)) 0 analysis"

definition canFullSjis :: "char_record list \<Rightarrow> bool" where
  "canFullSjis analysis = list_all (\<lambda>item. truthy (isValid (sjis item))) analysis"

section \<open>The mojibake simulator\<close>

text \<open>
  The two outputs are React state, both the empty string at first. The effect runs once
  per input: it returns at once on an empty input or without the library, and otherwise
  sets both outputs.
\<close>

record sim_state =
  utf8ToSjis :: jsstring
  sjisToUtf8 :: jsstring

definition initial_sim :: sim_state where
  "initial_sim = \<lparr> utf8ToSjis = [], sjisToUtf8 = [] \<rparr>"

definition conversion_error_text :: jsstring where
  "conversion_error_text = [0xFF08, 0x5909, 0x63DB, 0x30A8, 0x30E9, 0x30FC, 0xFF09]"

definition sjis_unsupported_text :: jsstring where
  "sjis_unsupported_text =
     [0xFF08, 0x53, 0x68, 0x69, 0x66, 0x74, 0x2D, 0x4A, 0x49, 0x53, 0x975E, 0x5BFE, 0x5FDC, 0xFF09]"

definition simulator_effect :: "encoding_lib option \<Rightarrow> jsstring \<Rightarrow> sim_state \<Rightarrow> sim_state" where
  "simulator_effect EncodingLib input st =
     (case EncodingLib of
        None \<Rightarrow> st
      | Some lib \<Rightarrow>
         if input = [] then st
         else
           (let utf8Bytes = toUTF8Array input;
                st1 = (case convert_string lib utf8Bytes UNICODE SJIS of
                         Inr garbled \<Rightarrow> st\<lparr> utf8ToSjis := garbled \<rparr>
                       | Inl e \<Rightarrow> st\<lparr> utf8ToSjis := conversion_error_text \<rparr>);
                sjisBytes = toSJISArray EncodingLib input
            in case sjisBytes of
                 None \<Rightarrow> st1\<lparr> sjisToUtf8 := sjis_unsupported_text \<rparr>
               | Some bs \<Rightarrow>
                   if length bs > 0 then
                     (case convert_string lib bs UNICODE UTF8 of
                        Inr garbled \<Rightarrow> st1\<lparr> sjisToUtf8 := garbled \<rparr>
                      | Inl e \<Rightarrow> st1\<lparr> sjisToUtf8 := conversion_error_text \<rparr>)
                   else st1\<lparr> sjisToUtf8 := sjis_unsupported_text \<rparr>))"

section \<open>The module version (utils/encoding.js)\<close>

text \<open>
  The module's \<^verbatim>\<open>toSJISArray\<close> returns the empty array without the library and has no
  \<^verbatim>\<open>try\<close>: a throw of the library leaves the function, and \<^verbatim>\<open>analyzeText\<close> with it.
  Its formatters have no null guard, and its records have neither \<^verbatim>\<open>id\<close>, \<^verbatim>\<open>length\<close>
  nor \<^verbatim>\<open>isValid\<close>.
\<close>

definition toSJISArray_module :: "encoding_lib option \<Rightarrow> jsstring \<Rightarrow> js_error + nat list" where
  "toSJISArray_module EncodingLib str =
     (case EncodingLib of
        None \<Rightarrow> Inr []
      | Some lib \<Rightarrow>
         (case stringToCode lib str of
            Inl e \<Rightarrow> Inl e
          | Inr unicodeArray \<Rightarrow> convert_array lib unicodeArray SJIS UNICODE))"

definition toHexString_module :: "nat list \<Rightarrow> string" where
  "toHexString_module byteArray = join '' '' (map hex_byte byteArray)"

definition toBinaryString_module :: "nat list \<Rightarrow> string" where
  "toBinaryString_module byteArray = join '' '' (map bin_byte byteArray)"

record module_view =
  m_bytes :: "nat list"
  m_hex :: string
  m_binary :: string

record module_record =
  m_char :: jsstring
  m_codePoint :: string
  m_utf8 :: module_view
  m_sjis :: module_view

definition analyzeChar_module ::
  "encoding_lib option \<Rightarrow> jsstring \<Rightarrow> nat \<Rightarrow> js_error + module_record" where
  "analyzeChar_module EncodingLib char index =
     (let utf8_arr = toUTF8Array char
      in case toSJISArray_module EncodingLib char of
           Inl e \<Rightarrow> Inl e
         | Inr sjis_arr \<Rightarrow>
            (case codePointAt0 char of
               None \<Rightarrow> Inl TypeError
             | Some cp \<Rightarrow>
                 Inr \<lparr> m_char = char,
                       m_codePoint = codePoint_label cp,
                       m_utf8 = \<lparr> m_bytes = utf8_arr,
                                  m_hex = toHexString_module utf8_arr,
                                  m_binary = toBinaryString_module utf8_arr \<rparr>,
                       m_sjis = \<lparr> m_bytes = sjis_arr,
                                  m_hex = toHexString_module sjis_arr,
                                  m_binary = toBinaryString_module sjis_arr \<rparr> \<rparr>))"

definition analyzeText_module ::
  "encoding_lib option \<Rightarrow> jsstring \<Rightarrow> js_error + module_record list" where
  "analyzeText_module EncodingLib text =
     (if text = [] then Inr []
      else map_indexed (analyzeChar_module EncodingLib) 0 (array_from text))"

section \<open>Sample codecs\<close>

text \<open>
  Two stand-ins for the library, used to run the analyzer on concrete inputs.
  \<open>table_lib\<close> knows ASCII, the letter U+3042 (bytes 82 A0) and the yen sign U+00A5
  (byte 5C, which reads back as the backslash U+005C); it answers every other code point
  with the substitute byte 3F, and it throws on malformed input: a lone surrogate to
  encode, a byte outside ASCII to read as UTF-8. \<open>throwing_lib\<close> throws on every call.
\<close>

fun table_well_formed :: "nat list \<Rightarrow> bool" where
  "table_well_formed [] = True"
| "table_well_formed [u] = (\<not> (0xD800 \<le> u \<and> u \<le> 0xDFFF))"
| "table_well_formed (u # v # rest) =
     (if 0xD800 \<le> u \<and> u \<le> 0xDBFF \<and> 0xDC00 \<le> v \<and> v \<le> 0xDFFF then table_well_formed rest
      else \<not> (0xD800 \<le> u \<and> u \<le> 0xDFFF) \<and> table_well_formed (v # rest))"

fun table_encode :: "nat list \<Rightarrow> nat list" where
  "table_encode [] = []"
| "table_encode [u] =
     (if u < 0x80 then [u] else if u = 0x3042 then [0x82, 0xA0]
      else if u = 0xA5 then [0x5C] else [0x3F])"
| "table_encode (u # v # rest) =
     (if 0xD800 \<le> u \<and> u \<le> 0xDBFF \<and> 0xDC00 \<le> v \<and> v \<le> 0xDFFF then 0x3F # table_encode rest
      else if u < 0x80 then u # table_encode (v # rest)
      else if u = 0x3042 then 0x82 # 0xA0 # table_encode (v # rest)
      else if u = 0xA5 then 0x5C # table_encode (v # rest)
      else 0x3F # table_encode (v # rest))"

fun table_decode :: "nat list \<Rightarrow> jsstring" where
  "table_decode [] = []"
| "table_decode [b] = (if b < 0x80 then [of_nat b] else [0xFFFD])"
| "table_decode (b # c # rest) =
     (if b = 0x82 \<and> c = 0xA0 then 0x3042 # table_decode rest
      else if b < 0x80 then of_nat b # table_decode (c # rest)
      else 0xFFFD # table_decode (c # rest))"

definition table_lib :: encoding_lib where
  "table_lib =
     \<lparr> stringToCode = (\<lambda>str. Inr (map unat str)),
       convert_array = (\<lambda>data to from.
          if to = SJIS \<and> from = UNICODE then
            (if table_well_formed data then Inr (table_encode data) else Inl LibraryError)
          else Inr data),
       convert_string = (\<lambda>data to from.
          if from = SJIS then Inr (table_decode data)
          else if list_all (\<lambda>b. b < 0x80) data then Inr (map of_nat data)
          else Inl LibraryError) \<rparr>"

definition throwing_lib :: encoding_lib where
  "throwing_lib =
     \<lparr> stringToCode = (\<lambda>str. Inl LibraryError),
       convert_array = (\<lambda>data to from. Inl LibraryError),
       convert_string = (\<lambda>data to from. Inl LibraryError) \<rparr>"

text \<open>
  The condition of the error-handling claims: the library is absent, or one of the three
  calls that \<^verbatim>\<open>toSJISArray\<close> makes for this character throws.
\<close>

definition codec_unavailable_or_throws :: "encoding_lib option \<Rightarrow> jsstring \<Rightarrow> bool" where
  "codec_unavailable_or_throws EncodingLib char =
     (case EncodingLib of
        None \<Rightarrow> True
      | Some lib \<Rightarrow>
         (case stringToCode lib char of
            Inl e \<Rightarrow> True
          | Inr unicodeArray \<Rightarrow>
             (case convert_array lib unicodeArray SJIS UNICODE of
                Inl e \<Rightarrow> True
              | Inr sjisArray \<Rightarrow>
                 (case convert_string lib sjisArray UNICODE SJIS of
                    Inl e \<Rightarrow> True
                  | Inr reversed \<Rightarrow> False))))"

text \<open>
  The records of the inlined analyzer on the letter U+3042 followed by the rocket emoji,
  and of the module's analyzer on the letter alone, both with \<open>table_lib\<close>.
\<close>

definition sample_analysis :: "char_record list" where
  "sample_analysis =
     [\<lparr> id_f = 0, char_f = [0x3042], codePoint = ''U+3042'',
         utf8 = \<lparr> bytes = [0xE3, 0x81, 0x82], length_f = 3, hex = ''E3 81 82'',
                  binary = ''11100011 10000001 10000010'' \<rparr>,
         sjis = \<lparr> bytes = [0x82, 0xA0], length_f = 2, hex = ''82 A0'',
                  binary = ''10000010 10100000'', isValid = JBool True \<rparr> \<rparr>,
      \<lparr> id_f = 1, char_f = [0xD83D, 0xDE80], codePoint = ''U+1F680'',
         utf8 = \<lparr> bytes = [0xF0, 0x9F, 0x9A, 0x80], length_f = 4, hex = ''F0 9F 9A 80'',
                  binary = ''11110000 10011111 10011010 10000000'' \<rparr>,
         sjis = \<lparr> bytes = [0x3F], length_f = 0, hex = ''3F'', binary = ''00111111'',
                  isValid = JBool False \<rparr> \<rparr>]"

definition sample_module_analysis :: "module_record list" where
  "sample_module_analysis =
     [\<lparr> m_char = [0x3042], m_codePoint = ''U+3042'',
         m_utf8 = \<lparr> m_bytes = [0xE3, 0x81, 0x82], m_hex = ''E3 81 82'',
                    m_binary = ''11100011 10000001 10000010'' \<rparr>,
         m_sjis = \<lparr> m_bytes = [0x82, 0xA0], m_hex = ''82 A0'',
                    m_binary = ''10000010 10100000'' \<rparr> \<rparr>]"

section \<open>Segmentation and the shape of the result\<close>

lemma array_from_concat: "concat (array_from s) = s"
  by (induction s rule: array_from.induct) auto

lemma array_from_nonempty: "c \<in> set (array_from s) \<Longrightarrow> c \<noteq> []"
  by (induction s rule: array_from.induct) (auto split: if_splits)

lemma codePointAt0_None_iff: "codePointAt0 c = None \<longleftrightarrow> c = []"
  by (cases c rule: codePointAt0.cases) auto

lemma all_less_Suc_shift: "(\<forall>j < Suc n. P j) \<longleftrightarrow> P 0 \<and> (\<forall>j < n. P (Suc j))"
  by (metis less_Suc_eq_0_disj Suc_less_eq zero_less_Suc)

lemma map_indexed_Inr_iff:
  "map_indexed f i xs = Inr ys \<longleftrightarrow>
     length ys = length xs \<and> (\<forall>j < length xs. f (xs ! j) (i + j) = Inr (ys ! j))"
proof (induction xs arbitrary: i ys)
  case Nil
  then show ?case by auto
next
  case (Cons x xs)
  show ?case
  proof (cases "f x i")
    case (Inl e)
    then show ?thesis by (auto simp: all_less_Suc_shift)
  next
    case fx: (Inr y)
    show ?thesis
    proof (cases "map_indexed f (Suc i) xs")
      case (Inl e)
      have "\<not> (length ys = Suc (length xs) \<and> (\<forall>j < length xs. f (xs ! j) (Suc i + j) = Inr (tl ys ! j)))"
        using Cons.IH [of "Suc i" "tl ys"] Inl by auto
      then have "\<not> (length ys = Suc (length xs) \<and> (\<forall>j < length xs. f (xs ! j) (i + Suc j) = Inr (ys ! Suc j)))"
        by (cases ys) auto
      with fx Inl show ?thesis by (auto simp: all_less_Suc_shift)
    next
      case (Inr ys')
      then have IH: "length ys' = length xs \<and> (\<forall>j < length xs. f (xs ! j) (Suc i + j) = Inr (ys' ! j))"
        using Cons.IH [of "Suc i" ys'] by simp
      show ?thesis
      proof
        assume "map_indexed f i (x # xs) = Inr ys"
        with fx Inr have "ys = y # ys'" by simp
        with fx IH show "length ys = length (x # xs) \<and> (\<forall>j < length (x # xs). f ((x # xs) ! j) (i + j) = Inr (ys ! j))"
          by (simp add: all_less_Suc_shift)
      next
        assume a: "length ys = length (x # xs) \<and> (\<forall>j < length (x # xs). f ((x # xs) ! j) (i + j) = Inr (ys ! j))"
        then obtain z zs where ys: "ys = z # zs" by (cases ys) auto
        with a fx have "z = y" by (auto simp: all_less_Suc_shift)
        moreover have "map_indexed f (Suc i) xs = Inr zs"
          using a ys Cons.IH [of "Suc i" zs] by (simp add: all_less_Suc_shift)
        ultimately show "map_indexed f i (x # xs) = Inr ys" using fx ys by simp
      qed
    qed
  qed
qed

lemma map_indexed_total:
  "(\<forall>j < length xs. \<exists>y. f (xs ! j) (i + j) = Inr y) \<Longrightarrow> \<exists>ys. map_indexed f i xs = Inr ys"
proof (induction xs arbitrary: i)
  case Nil
  then show ?case by simp
next
  case (Cons x xs)
  from Cons.prems obtain y where y: "f x i = Inr y"
    by (auto simp: all_less_Suc_shift)
  from Cons.prems have "\<forall>j < length xs. \<exists>y. f (xs ! j) (Suc i + j) = Inr y"
    by (simp add: all_less_Suc_shift)
  then obtain ys where "map_indexed f (Suc i) xs = Inr ys"
    using Cons.IH by blast
  with y show ?case by simp
qed

lemma map_indexed_throws:
  "j < length xs \<Longrightarrow> f (xs ! j) (i + j) = Inl e \<Longrightarrow> \<exists>e'. map_indexed f i xs = Inl e'"
  by (cases "map_indexed f i xs") (auto simp: map_indexed_Inr_iff)

lemma analyzeChar_Inr:
  assumes "c \<noteq> []"
  obtains cp where "codePointAt0 c = Some cp"
    and "analyzeChar W c i =
      Inr \<lparr> id_f = i, char_f = c, codePoint = codePoint_label cp,
            utf8 = \<lparr> bytes = toUTF8Array c, length_f = length (toUTF8Array c),
                     hex = toHexString (Some (toUTF8Array c)),
                     binary = toBinaryString (Some (toUTF8Array c)) \<rparr>,
            sjis = \<lparr> bytes = (case toSJISArray W c of None \<Rightarrow> [] | Some s \<Rightarrow> s),
                     length_f = (if truthy (isSjisValid (toSJISArray W c) c)
                                 then (case toSJISArray W c of None \<Rightarrow> 0 | Some s \<Rightarrow> length s)
                                 else 0),
                     hex = toHexString (Some (case toSJISArray W c of None \<Rightarrow> [] | Some s \<Rightarrow> s)),
                     binary = toBinaryString (Some (case toSJISArray W c of None \<Rightarrow> [] | Some s \<Rightarrow> s)),
                     isValid = isSjisValid (toSJISArray W c) c \<rparr> \<rparr>"
proof -
  from assms obtain cp where "codePointAt0 c = Some cp"
    using codePointAt0_None_iff [of c] by (cases "codePointAt0 c") auto
  then show thesis using that by (simp add: analyzeChar_def Let_def)
qed

lemma analyzeText_Inr_iff:
  "analyzeText W text = Inr rs \<longleftrightarrow>
     length rs = length (array_from text) \<and>
     (\<forall>j < length (array_from text). analyzeChar W (array_from text ! j) j = Inr (rs ! j))"
proof (cases "text = []")
  case True
  then show ?thesis by (auto simp: analyzeText_def)
next
  case False
  then show ?thesis
    using map_indexed_Inr_iff [of "analyzeChar W" 0 "array_from text" rs]
    by (simp add: analyzeText_def)
qed

lemma analyzeText_total: "\<exists>rs. analyzeText W text = Inr rs"
proof (cases "text = []")
  case True
  then show ?thesis by (simp add: analyzeText_def)
next
  case False
  have "\<forall>j < length (array_from text). \<exists>y. analyzeChar W (array_from text ! j) (0 + j) = Inr y"
  proof (intro allI impI)
    fix j assume "j < length (array_from text)"
    then have "array_from text ! j \<noteq> []"
      using array_from_nonempty [of "array_from text ! j" "text"] by simp
    then show "\<exists>y. analyzeChar W (array_from text ! j) (0 + j) = Inr y"
      by (rule analyzeChar_Inr [where W = W and i = "0 + j"]) blast
  qed
  then have "\<exists>ys. map_indexed (analyzeChar W) 0 (array_from text) = Inr ys"
    by (rule map_indexed_total)
  with False show ?thesis by (simp add: analyzeText_def)
qed

lemma analyzeText_nth:
  assumes "analyzeText W text = Inr rs" and "j < length (array_from text)"
  shows "\<exists>cp. codePointAt0 (array_from text ! j) = Some cp \<and>
     rs ! j =
      \<lparr> id_f = j, char_f = array_from text ! j, codePoint = codePoint_label cp,
            utf8 = \<lparr> bytes = toUTF8Array (array_from text ! j),
                     length_f = length (toUTF8Array (array_from text ! j)),
                     hex = toHexString (Some (toUTF8Array (array_from text ! j))),
                     binary = toBinaryString (Some (toUTF8Array (array_from text ! j))) \<rparr>,
            sjis = \<lparr> bytes = (case toSJISArray W (array_from text ! j) of None \<Rightarrow> [] | Some s \<Rightarrow> s),
                     length_f = (if truthy (isSjisValid (toSJISArray W (array_from text ! j)) (array_from text ! j))
                                 then (case toSJISArray W (array_from text ! j) of None \<Rightarrow> 0 | Some s \<Rightarrow> length s)
                                 else 0),
                     hex = toHexString (Some (case toSJISArray W (array_from text ! j) of None \<Rightarrow> [] | Some s \<Rightarrow> s)),
                     binary = toBinaryString (Some (case toSJISArray W (array_from text ! j) of None \<Rightarrow> [] | Some s \<Rightarrow> s)),
                     isValid = isSjisValid (toSJISArray W (array_from text ! j)) (array_from text ! j) \<rparr> \<rparr>"
proof -
  from assms have r: "analyzeChar W (array_from text ! j) j = Inr (rs ! j)"
    by (simp add: analyzeText_Inr_iff)
  from assms(2) have "array_from text ! j \<noteq> []"
    using array_from_nonempty [of "array_from text ! j" "text"] by simp
  then show ?thesis
    by (rule analyzeChar_Inr [where W = W and i = j]) (use r in auto)
qed

lemma analyzeText_fields:
  assumes "analyzeText W text = Inr rs" and "j < length (array_from text)"
  shows "id_f (rs ! j) = j"
    and "char_f (rs ! j) = array_from text ! j"
    and "\<exists>cp. codePointAt0 (array_from text ! j) = Some cp \<and> codePoint (rs ! j) = codePoint_label cp"
    and "bytes (utf8 (rs ! j)) = toUTF8Array (array_from text ! j)"
    and "length_f (utf8 (rs ! j)) = length (toUTF8Array (array_from text ! j))"
    and "hex (utf8 (rs ! j)) = toHexString (Some (toUTF8Array (array_from text ! j)))"
    and "binary (utf8 (rs ! j)) = toBinaryString (Some (toUTF8Array (array_from text ! j)))"
    and "bytes (sjis (rs ! j)) = (case toSJISArray W (array_from text ! j) of None \<Rightarrow> [] | Some s \<Rightarrow> s)"
    and "isValid (sjis (rs ! j)) = isSjisValid (toSJISArray W (array_from text ! j)) (array_from text ! j)"
    and "hex (sjis (rs ! j)) = toHexString (Some (bytes (sjis (rs ! j))))"
    and "binary (sjis (rs ! j)) = toBinaryString (Some (bytes (sjis (rs ! j))))"
    and "length_f (sjis (rs ! j)) = (if truthy (isValid (sjis (rs ! j))) then length (bytes (sjis (rs ! j))) else 0)"
  using analyzeText_nth [OF assms] by (auto split: option.splits simp: isSjisValid_def)

lemma analyzeText_length: "analyzeText W text = Inr rs \<Longrightarrow> length rs = length (array_from text)"
  by (simp add: analyzeText_Inr_iff)

lemma analyzeText_chars: 
  assumes "analyzeText W text = Inr rs"
  shows "map char_f rs = array_from text"
proof (rule nth_equalityI)
  show "length (map char_f rs) = length (array_from text)"
    using assms by (simp add: analyzeText_length)
next
  fix i assume "i < length (map char_f rs)"
  then have "i < length (array_from text)" using assms by (simp add: analyzeText_length)
  with assms show "map char_f rs ! i = array_from text ! i"
    by (simp add: analyzeText_length analyzeText_fields(2))
qed

lemma analyzeText_ids:
  assumes "analyzeText W text = Inr rs"
  shows "map id_f rs = [0 ..< length rs]"
proof (rule nth_equalityI)
  show "length (map id_f rs) = length [0 ..< length rs]" by simp
next
  fix i assume "i < length (map id_f rs)"
  then have i: "i < length rs" by simp
  then have "i < length (array_from text)" using assms by (simp add: analyzeText_length)
  with assms i show "map id_f rs ! i = [0 ..< length rs] ! i"
    by (simp add: analyzeText_fields(1))
qed

lemma replicate_numeral_Cons: "replicate (numeral k) x = x # replicate (pred_numeral k) x"
  by (simp add: numeral_eq_Suc)

lemmas eval_defs = analyzeText_def analyzeChar_def isSjisValid_def toSJISArray_def
  toUTF8Array_def is_lead_def is_trail_def pair_code_point_def scalar_value_def utf8_bytes_def
  codePoint_label_def toHexString_def hex_byte_def toBinaryString_def bin_byte_def
  padStart_def toUpperCase_def upper_char_def digit_char_def toString_radix.simps
  replicate_numeral_Cons

section \<open>Byte formatting\<close>

lemma upt16: "[0 ..< 16] = [0, 1, 2, 3, 4, 5, 6, 7, 8, 9, 10, 11, 12, 13, 14, 15::nat]"
  by code_simp

lemma table16:
  assumes "map f [0 ..< 16] = map g [0 ..< 16]" and "d < 16"
  shows "f d = g d"
  using assms by (simp only: map_eq_conv) simp

lemma toUpperCase_map: "toUpperCase s = map upper_char s"
  by (simp add: toUpperCase_def)

lemma digit_value_digit_char: "d < 16 \<Longrightarrow> digit_value (digit_char d) = d"
proof -
  have "map (\<lambda>d. digit_value (digit_char d)) [0 ..< 16] = map (\<lambda>d. d) [0 ..< 16]"
    unfolding upt16 by (simp add: digit_char_def digit_value_def)
  then show "d < 16 \<Longrightarrow> digit_value (digit_char d) = d" by (rule table16)
qed

lemma digit_value_up: "d < 16 \<Longrightarrow> digit_value (upper_char (digit_char d)) = d"
proof -
  have "map (\<lambda>d. digit_value (upper_char (digit_char d))) [0 ..< 16] = map (\<lambda>d. d) [0 ..< 16]"
    unfolding upt16 by (simp add: digit_char_def digit_value_def upper_char_def)
  then show "d < 16 \<Longrightarrow> digit_value (upper_char (digit_char d)) = d" by (rule table16)
qed

lemma up_digit_hex: "d < 16 \<Longrightarrow> upper_char (digit_char d) = ''0123456789ABCDEF'' ! d"
proof -
  have "map (\<lambda>d. upper_char (digit_char d)) [0 ..< 16] = map (\<lambda>d. ''0123456789ABCDEF'' ! d) [0 ..< 16]"
    unfolding upt16 by (simp add: digit_char_def upper_char_def)
  then show "d < 16 \<Longrightarrow> upper_char (digit_char d) = ''0123456789ABCDEF'' ! d" by (rule table16)
qed

lemma up_digit_in: "d < 16 \<Longrightarrow> upper_char (digit_char d) \<in> set ''0123456789ABCDEF''"
  by (simp only: up_digit_hex) (rule nth_mem, simp)

lemma bin_digit_in: "d < 2 \<Longrightarrow> digit_char d \<in> set ''01''"
proof -
  assume "d < 2" then have "d = 0 \<or> d = 1" by auto
  then show ?thesis by (auto simp: digit_char_def)
qed

lemma parse_radix_snoc: "parse_radix r (s @ [c]) = parse_radix r s * r + digit_value c"
  by (simp add: parse_radix_def)

lemma digits_lt: "2 \<le> r \<Longrightarrow> c \<in> set (toString_radix r n) \<Longrightarrow> \<exists>d < r. c = digit_char d"
proof (induction r n rule: toString_radix.induct)
  case (1 r n)
  show ?case
  proof (cases "n < r")
    case True
    with "1.prems" show ?thesis by (auto simp: toString_radix.simps [of r n])
  next
    case False
    with "1.prems" have "c \<in> set (toString_radix r (n div r)) \<or> c = digit_char (n mod r)"
      by (auto simp: toString_radix.simps [of r n])
    then show ?thesis
    proof
      assume "c \<in> set (toString_radix r (n div r))"
      with "1.IH" False "1.prems" show ?thesis by auto
    next
      assume "c = digit_char (n mod r)"
      moreover have "n mod r < r" using "1.prems" by simp
      ultimately show ?thesis by blast
    qed
  qed
qed

lemma parse_map_toString:
  assumes f: "\<And>d. d < 16 \<Longrightarrow> digit_value (f (digit_char d)) = d"
  shows "2 \<le> r \<Longrightarrow> r \<le> 16 \<Longrightarrow> parse_radix r (map f (toString_radix r n)) = n"
proof (induction r n rule: toString_radix.induct)
  case (1 r n)
  show ?case
  proof (cases "n < r")
    case True
    with "1.prems" show ?thesis
      by (simp add: toString_radix.simps [of r n] parse_radix_def f)
  next
    case False
    have "n mod r < r" using "1.prems" by simp
    then have m: "n mod r < 16" using "1.prems" by linarith
    have "parse_radix r (map f (toString_radix r (n div r))) = n div r"
      using "1.IH" False "1.prems" by simp
    with False "1.prems" m show ?thesis
      by (simp add: toString_radix.simps [of r n] parse_radix_snoc f)
  qed
qed

lemma length_toString: "2 \<le> r \<Longrightarrow> n < r ^ Suc k \<Longrightarrow> length (toString_radix r n) \<le> Suc k"
proof (induction k arbitrary: n)
  case 0
  then show ?case by (simp add: toString_radix.simps [of r n])
next
  case (Suc k)
  show ?case
  proof (cases "n < r")
    case True
    then show ?thesis by (simp add: toString_radix.simps [of r n])
  next
    case False
    have "n div r < r ^ Suc k" using Suc.prems
      by (simp add: less_mult_imp_div_less mult.commute)
    then have "length (toString_radix r (n div r)) \<le> Suc k" using Suc.IH Suc.prems by simp
    with False Suc.prems show ?thesis by (simp add: toString_radix.simps [of r n])
  qed
qed

lemma parse_radix_zeros: "parse_radix r (replicate k CHR ''0'' @ s) = parse_radix r s"
proof -
  have "foldl (\<lambda>acc c. acc * r + digit_value c) 0 (replicate k CHR ''0'') = 0"
    by (induction k) (simp_all add: digit_value_def)
  then show ?thesis by (simp add: parse_radix_def)
qed

lemma split_on_no_sep: "sep \<notin> set g \<Longrightarrow> split_on sep g = [g]"
  by (induction g) auto

lemma split_on_append: "sep \<notin> set g \<Longrightarrow> split_on sep (g @ sep # rest) = g # split_on sep rest"
  by (induction g) auto

lemma split_on_join:
  "gs \<noteq> [] \<Longrightarrow> \<forall>g \<in> set gs. sep \<notin> set g \<Longrightarrow> split_on sep (join [sep] gs) = gs"
proof (induction "[sep]" gs rule: join.induct)
  case 1
  then show ?case by simp
next
  case (2 x)
  then show ?case by (simp add: split_on_no_sep)
next
  case (3 x y ys)
  then show ?case by (simp add: split_on_append)
qed

lemma length_join:
  "gs \<noteq> [] \<Longrightarrow> \<forall>g \<in> set gs. length g = k \<Longrightarrow> length (join [sep] gs) = (k + 1) * length gs - 1"
proof (induction "[sep]" gs rule: join.induct)
  case 1
  then show ?case by simp
next
  case (2 x)
  then show ?case by simp
next
  case (3 x y ys)
  then show ?case by simp
qed

lemma join_eq_Nil: "\<forall>g \<in> set gs. g \<noteq> [] \<Longrightarrow> join sep gs = [] \<longleftrightarrow> gs = []"
  by (induction sep gs rule: join.induct) auto

lemma hex_byte_facts:
  assumes "b < 256"
  shows "length (hex_byte b) = 2"
    and "set (hex_byte b) \<subseteq> set ''0123456789ABCDEF''"
    and "parse_radix 16 (hex_byte b) = b"
    and "CHR '' '' \<notin> set (hex_byte b)"
proof -
  have "b < 16 ^ Suc 1" using assms by simp
  then have le: "length (toString_radix 16 b) \<le> 2"
    using length_toString [of 16 b 1] by simp
  have pos: "0 < length (toString_radix 16 b)"
    by (simp add: toString_radix.simps [of 16 b])
  from le pos show "length (hex_byte b) = 2"
    by (simp add: hex_byte_def padStart_def toUpperCase_map)
  have digs: "set (toUpperCase (toString_radix 16 b)) \<subseteq> set ''0123456789ABCDEF''"
  proof
    fix c assume "c \<in> set (toUpperCase (toString_radix 16 b))"
    then obtain c' where "c' \<in> set (toString_radix 16 b)" and c: "c = upper_char c'"
      by (auto simp: toUpperCase_map)
    then obtain d where "d < 16" and "c' = digit_char d"
      using digits_lt [of 16 c' b] by auto
    with c show "c \<in> set ''0123456789ABCDEF''" using up_digit_in by simp
  qed
  then show sub: "set (hex_byte b) \<subseteq> set ''0123456789ABCDEF''"
    by (auto simp: hex_byte_def padStart_def)
  show "parse_radix 16 (hex_byte b) = b"
    unfolding hex_byte_def padStart_def parse_radix_zeros toUpperCase_map
    by (rule parse_map_toString) (simp_all add: digit_value_up)
  from sub show "CHR '' '' \<notin> set (hex_byte b)" by auto
qed

lemma bin_byte_facts:
  assumes "b < 256"
  shows "length (bin_byte b) = 8"
    and "set (bin_byte b) \<subseteq> set ''01''"
    and "parse_radix 2 (bin_byte b) = b"
    and "CHR '' '' \<notin> set (bin_byte b)"
proof -
  have "b < 2 ^ Suc 7" using assms by simp
  then have le: "length (toString_radix 2 b) \<le> 8"
    using length_toString [of 2 b 7] by simp
  then show "length (bin_byte b) = 8"
    by (simp add: bin_byte_def padStart_def)
  have digs: "set (toString_radix 2 b) \<subseteq> set ''01''"
  proof
    fix c assume "c \<in> set (toString_radix 2 b)"
    then obtain d where "d < 2" and "c = digit_char d"
      using digits_lt [of 2 c b] by auto
    then show "c \<in> set ''01''" using bin_digit_in by simp
  qed
  then show sub: "set (bin_byte b) \<subseteq> set ''01''"
    by (auto simp: bin_byte_def padStart_def)
  have "parse_radix 2 (map (\<lambda>c. c) (toString_radix 2 b)) = b"
    by (rule parse_map_toString) (simp_all add: digit_value_digit_char)
  then show "parse_radix 2 (bin_byte b) = b"
    by (simp add: bin_byte_def padStart_def parse_radix_zeros)
  from sub show "CHR '' '' \<notin> set (bin_byte b)" by auto
qed

lemma parse_groups_join:
  assumes "\<forall>b \<in> set bs. CHR '' '' \<notin> set (f b) \<and> f b \<noteq> [] \<and> parse_radix r (f b) = b"
  shows "parse_groups r (join '' '' (map f bs)) = bs"
proof (cases "bs = []")
  case True
  then show ?thesis by (simp add: parse_groups_def)
next
  case False
  have ne: "join '' '' (map f bs) \<noteq> []"
    using assms False join_eq_Nil [of "map f bs" "'' ''"] by auto
  have "split_on CHR '' '' (join [CHR '' ''] (map f bs)) = map f bs"
    using assms False by (intro split_on_join) auto
  with ne have "parse_groups r (join '' '' (map f bs)) = map (parse_radix r) (map f bs)"
    by (simp add: parse_groups_def)
  also have "\<dots> = bs" using assms by (simp add: map_idI)
  finally show ?thesis .
qed

text \<open>
  Claim C5. For every byte sequence with all elements in 0..255: splitting \<open>toHexString\<close>
  (resp. \<open>toBinaryString\<close>) at the spaces gives one group per byte, in order; each hex
  group has exactly two digits out of 0-9 and A-F, each binary group exactly eight digits
  out of 0 and 1, and each group read as a numeral is the byte, so that re-parsing the
  rendering gives the byte sequence back; the hex string of \<open>n > 0\<close> bytes has length
  \<open>3 * n - 1\<close>; both functions give the empty string on the empty sequence.
\<close>

theorem formatting_round_trip:
  assumes "\<forall>b \<in> set bs. b < 256"
  shows "parse_groups 16 (toHexString (Some bs)) = bs
       \<and> parse_groups 2 (toBinaryString (Some bs)) = bs
       \<and> (bs \<noteq> [] \<longrightarrow> split_on CHR '' '' (toHexString (Some bs)) = map hex_byte bs
                    \<and> split_on CHR '' '' (toBinaryString (Some bs)) = map bin_byte bs)
       \<and> (\<forall>b \<in> set bs. length (hex_byte b) = 2 \<and> set (hex_byte b) \<subseteq> set ''0123456789ABCDEF''
                    \<and> parse_radix 16 (hex_byte b) = b)
       \<and> (\<forall>b \<in> set bs. length (bin_byte b) = 8 \<and> set (bin_byte b) \<subseteq> set ''01''
                    \<and> parse_radix 2 (bin_byte b) = b)
       \<and> (bs \<noteq> [] \<longrightarrow> length (toHexString (Some bs)) = 3 * length bs - 1)
       \<and> toHexString (Some []) = [] \<and> toBinaryString (Some []) = []"
proof -
  have hne: "\<forall>b \<in> set bs. hex_byte b \<noteq> []"
    using assms hex_byte_facts(1) by fastforce
  have bne: "\<forall>b \<in> set bs. bin_byte b \<noteq> []"
    using assms bin_byte_facts(1) by fastforce
  have 1: "parse_groups 16 (toHexString (Some bs)) = bs"
    unfolding toHexString_def option.case
    by (rule parse_groups_join) (use assms hne hex_byte_facts in auto)
  have 2: "parse_groups 2 (toBinaryString (Some bs)) = bs"
    unfolding toBinaryString_def option.case
    by (rule parse_groups_join) (use assms bne bin_byte_facts in auto)
  have 3: "split_on CHR '' '' (toHexString (Some bs)) = map hex_byte bs" if "bs \<noteq> []"
    unfolding toHexString_def option.case
    using that assms hex_byte_facts(4) by (intro split_on_join) auto
  have 4: "split_on CHR '' '' (toBinaryString (Some bs)) = map bin_byte bs" if "bs \<noteq> []"
    unfolding toBinaryString_def option.case
    using that assms bin_byte_facts(4) by (intro split_on_join) auto
  have 5: "\<forall>b \<in> set bs. length (hex_byte b) = 2 \<and> set (hex_byte b) \<subseteq> set ''0123456789ABCDEF''
                    \<and> parse_radix 16 (hex_byte b) = b"
    using assms hex_byte_facts by blast
  have 6: "\<forall>b \<in> set bs. length (bin_byte b) = 8 \<and> set (bin_byte b) \<subseteq> set ''01''
                    \<and> parse_radix 2 (bin_byte b) = b"
    using assms bin_byte_facts by blast
  have 7: "length (toHexString (Some bs)) = 3 * length bs - 1" if "bs \<noteq> []"
  proof -
    have "length (join [CHR '' ''] (map hex_byte bs)) = (2 + 1) * length (map hex_byte bs) - 1"
      using that assms hex_byte_facts(1) by (intro length_join) auto
    then show ?thesis by (simp add: toHexString_def)
  qed
  have 8: "toHexString (Some []) = [] \<and> toBinaryString (Some []) = []"
    by (simp add: toHexString_def toBinaryString_def)
  from 1 2 3 4 5 6 7 8 show ?thesis by blast
qed

theorem formatting_round_trip_witness:
  "list_all (\<lambda>b. b < 256) [227, 129, 130 :: nat]
   \<and> toHexString (Some [227, 129, 130]) = ''E3 81 82''
   \<and> toBinaryString (Some [227, 129, 130]) = ''11100011 10000001 10000010''
   \<and> parse_groups 16 (toHexString (Some [227, 129, 130])) = [227, 129, 130]
   \<and> parse_groups 2 (toBinaryString (Some [227, 129, 130])) = [227, 129, 130]
   \<and> length (toHexString (Some [227, 129, 130])) = 8"
proof -
  have h: "\<forall>b \<in> set [227, 129, 130 :: nat]. b < 256" by simp
  note t = formatting_round_trip [OF h]
  have hx: "toHexString (Some [227, 129, 130]) = ''E3 81 82''"
    by code_simp
  have bn: "toBinaryString (Some [227, 129, 130]) = ''11100011 10000001 10000010''"
    by code_simp
  from t have a: "parse_groups 16 (toHexString (Some [227, 129, 130])) = [227, 129, 130]"
    by (rule conjunct1)
  from t have b: "parse_groups 2 (toBinaryString (Some [227, 129, 130])) = [227, 129, 130]"
    by (elim conjE)
  from t have "[227, 129, 130 :: nat] \<noteq> [] \<longrightarrow>
      length (toHexString (Some [227, 129, 130])) = 3 * length [227, 129, 130 :: nat] - 1"
    by (elim conjE)
  then have c: "length (toHexString (Some [227, 129, 130])) = 8" by simp
  have h': "list_all (\<lambda>b. b < 256) [227, 129, 130 :: nat]" by simp
  from h' hx bn a b c show ?thesis by (intro conjI)
qed

section \<open>Claims about the analyzer\<close>

lemma lead_not_trail: "is_lead u \<Longrightarrow> \<not> is_trail u"
  by (auto simp: is_lead_def is_trail_def word_le_nat_alt)

lemma array_from_pair_inside:
  "is_lead h \<Longrightarrow> is_trail l \<Longrightarrow>
   array_from (pre @ h # l # post) = array_from pre @ [h, l] # array_from post"
  by (induction pre rule: array_from.induct) (auto simp: lead_not_trail)

lemma array_from_shape:
  "c \<in> set (array_from s) \<Longrightarrow>
   (\<exists>u. c = [u]) \<or> (\<exists>h l. is_lead h \<and> is_trail l \<and> c = [h, l])"
  by (induction s rule: array_from.induct) (auto split: if_splits)

text \<open>
  Claim C4. \<open>analyzeText\<close> returns on every input string (no throw leaves it): the
  records it returns carry, in order, characters whose concatenation is the input, with
  ids counting from 0, and each character is one code unit or a lead surrogate with its
  trail surrogate; the empty string gives the empty sequence; a surrogate pair alone
  gives exactly one record, whose character is the pair; and a surrogate pair anywhere in
  an input, after any text and before any text, is exactly one record, standing between
  the records that make up the text before it and those that make up the text after it.
\<close>

theorem analyze_total_and_segmented:
  "(\<exists>rs. analyzeText W text = Inr rs \<and> concat (map char_f rs) = text
         \<and> map id_f rs = [0 ..< length rs]
         \<and> (\<forall>r \<in> set rs. (\<exists>u. char_f r = [u])
               \<or> (\<exists>h l. is_lead h \<and> is_trail l \<and> char_f r = [h, l])))
   \<and> analyzeText W [] = Inr []
   \<and> (is_lead h \<and> is_trail l \<longrightarrow> (\<exists>r. analyzeText W [h, l] = Inr [r] \<and> char_f r = [h, l]))
   \<and> (is_lead h \<and> is_trail l \<longrightarrow>
        (\<exists>rs before after. analyzeText W (pre @ h # l # post) = Inr rs
           \<and> map char_f rs = before @ [h, l] # after
           \<and> concat before = pre \<and> concat after = post
           \<and> length rs = length before + 1 + length after
           \<and> char_f (rs ! length before) = [h, l]))"
proof (intro conjI impI)
  obtain rs where rs: "analyzeText W text = Inr rs" using analyzeText_total by blast
  then have c: "concat (map char_f rs) = text"
    by (simp add: analyzeText_chars array_from_concat)
  have i: "map id_f rs = [0 ..< length rs]" using rs by (rule analyzeText_ids)
  have s: "\<forall>r \<in> set rs. (\<exists>u. char_f r = [u])
               \<or> (\<exists>h l. is_lead h \<and> is_trail l \<and> char_f r = [h, l])"
  proof
    fix r assume "r \<in> set rs"
    then have "char_f r \<in> set (map char_f rs)" by simp
    then have "char_f r \<in> set (array_from text)" using rs by (simp only: analyzeText_chars)
    then show "(\<exists>u. char_f r = [u]) \<or> (\<exists>h l. is_lead h \<and> is_trail l \<and> char_f r = [h, l])"
      by (rule array_from_shape)
  qed
  from rs c i s
  show "\<exists>rs. analyzeText W text = Inr rs \<and> concat (map char_f rs) = text
         \<and> map id_f rs = [0 ..< length rs]
         \<and> (\<forall>r \<in> set rs. (\<exists>u. char_f r = [u])
               \<or> (\<exists>h l. is_lead h \<and> is_trail l \<and> char_f r = [h, l]))"
    by (intro exI conjI)
next
  show "analyzeText W [] = Inr []" by (simp add: analyzeText_def)
next
  assume hl: "is_lead h \<and> is_trail l"
  obtain rs where rs: "analyzeText W [h, l] = Inr rs" using analyzeText_total by blast
  then have "map char_f rs = [[h, l]]" using hl by (simp add: analyzeText_chars)
  then obtain r where "rs = [r]" and "char_f r = [h, l]" by (cases rs) auto
  with rs show "\<exists>r. analyzeText W [h, l] = Inr [r] \<and> char_f r = [h, l]" by simp
next
  assume hl: "is_lead h \<and> is_trail l"
  obtain rs where rs: "analyzeText W (pre @ h # l # post) = Inr rs"
    using analyzeText_total by blast
  let ?b = "array_from pre" and ?a = "array_from post"
  have m: "map char_f rs = ?b @ [h, l] # ?a"
    using rs hl by (simp add: analyzeText_chars array_from_pair_inside)
  have cb: "concat ?b = pre" and ca: "concat ?a = post" by (rule array_from_concat)+
  have "length (map char_f rs) = length (?b @ [h, l] # ?a)" using m by (rule arg_cong)
  then have len: "length rs = length ?b + 1 + length ?a" by simp
  have "map char_f rs ! length ?b = [h, l]" unfolding m by simp
  moreover have "length ?b < length rs" using len by simp
  ultimately have at: "char_f (rs ! length ?b) = [h, l]" by simp
  from rs m cb ca len at
  show "\<exists>rs before after. analyzeText W (pre @ h # l # post) = Inr rs
           \<and> map char_f rs = before @ [h, l] # after
           \<and> concat before = pre \<and> concat after = post
           \<and> length rs = length before + 1 + length after
           \<and> char_f (rs ! length before) = [h, l]"
    by (intro exI conjI)
qed

theorem analyze_total_and_segmented_witness:
  "is_lead 0xD83D \<and> is_trail 0xDE80
   \<and> (\<exists>r. analyzeText (Some table_lib) [0xD83D, 0xDE80] = Inr [r] \<and> char_f r = [0xD83D, 0xDE80])
   \<and> (\<exists>rs. analyzeText (Some table_lib) [0x41, 0xD83D, 0xDE80, 0x42] = Inr rs
          \<and> concat (map char_f rs) = [0x41, 0xD83D, 0xDE80, 0x42]
          \<and> map id_f rs = [0 ..< length rs])
   \<and> (\<exists>rs. analyzeText (Some table_lib) [0x41, 0xD83D, 0xDE80, 0x42] = Inr rs
          \<and> map char_f rs = [[0x41], [0xD83D, 0xDE80], [0x42]] \<and> length rs = 3
          \<and> char_f (rs ! 1) = [0xD83D, 0xDE80])"
proof -
  have h: "is_lead 0xD83D \<and> is_trail 0xDE80" by (simp add: is_lead_def is_trail_def)
  note t = analyze_total_and_segmented [of "Some table_lib" "[0x41, 0xD83D, 0xDE80, 0x42]"
      "0xD83D" "0xDE80" "[0x41]" "[0x42]"]
  from t have t3: "is_lead 0xD83D \<and> is_trail 0xDE80 \<longrightarrow>
      (\<exists>r. analyzeText (Some table_lib) [0xD83D, 0xDE80] = Inr [r]
         \<and> char_f r = [0xD83D, 0xDE80])" by (elim conjE)
  from t3 h have 1: "\<exists>r. analyzeText (Some table_lib) [0xD83D, 0xDE80] = Inr [r]
      \<and> char_f r = [0xD83D, 0xDE80]" by (rule mp)
  from t obtain rs0 where
    r0: "analyzeText (Some table_lib) [0x41, 0xD83D, 0xDE80, 0x42] = Inr rs0"
    and c0: "concat (map char_f rs0) = [0x41, 0xD83D, 0xDE80, 0x42]"
    and i0: "map id_f rs0 = [0 ..< length rs0]" by (elim exE conjE)
  from r0 c0 i0
  have 2: "\<exists>rs. analyzeText (Some table_lib) [0x41, 0xD83D, 0xDE80, 0x42] = Inr rs
          \<and> concat (map char_f rs) = [0x41, 0xD83D, 0xDE80, 0x42]
          \<and> map id_f rs = [0 ..< length rs]" by (intro exI conjI)
  from t have t4: "is_lead 0xD83D \<and> is_trail 0xDE80 \<longrightarrow>
        (\<exists>rs before after.
           analyzeText (Some table_lib) ([0x41] @ 0xD83D # 0xDE80 # [0x42]) = Inr rs
           \<and> map char_f rs = before @ [0xD83D, 0xDE80] # after
           \<and> concat before = [0x41] \<and> concat after = [0x42]
           \<and> length rs = length before + 1 + length after
           \<and> char_f (rs ! length before) = [0xD83D, 0xDE80])" by (elim conjE)
  from t4 h have "\<exists>rs before after.
           analyzeText (Some table_lib) ([0x41] @ 0xD83D # 0xDE80 # [0x42]) = Inr rs
           \<and> map char_f rs = before @ [0xD83D, 0xDE80] # after
           \<and> concat before = [0x41] \<and> concat after = [0x42]
           \<and> length rs = length before + 1 + length after
           \<and> char_f (rs ! length before) = [0xD83D, 0xDE80]" by (rule mp)
  then obtain rs before after where
    rs: "analyzeText (Some table_lib) ([0x41] @ 0xD83D # 0xDE80 # [0x42]) = Inr rs"
    and m: "map char_f rs = before @ [0xD83D, 0xDE80] # after"
    by (elim exE conjE)
  have af: "array_from [0x41, 0xD83D, 0xDE80, 0x42] = [[0x41], [0xD83D, 0xDE80], [0x42]]"
    by (simp add: is_lead_def is_trail_def)
  from rs have rs': "analyzeText (Some table_lib) [0x41, 0xD83D, 0xDE80, 0x42] = Inr rs" by simp
  then have c: "map char_f rs = [[0x41], [0xD83D, 0xDE80], [0x42]]"
    by (simp only: analyzeText_chars af)
  have "length (map char_f rs) = length [[0x41 :: 16 word], [0xD83D, 0xDE80], [0x42]]"
    using c by (rule arg_cong)
  then have l: "length rs = 3" by simp
  have "map char_f rs ! 1 = [0xD83D, 0xDE80]" unfolding c by simp
  then have a: "char_f (rs ! 1) = [0xD83D, 0xDE80]" using l by simp
  from rs' c l a have 3: "\<exists>rs. analyzeText (Some table_lib) [0x41, 0xD83D, 0xDE80, 0x42] = Inr rs
          \<and> map char_f rs = [[0x41], [0xD83D, 0xDE80], [0x42]] \<and> length rs = 3
          \<and> char_f (rs ! 1) = [0xD83D, 0xDE80]" by (intro exI conjI)
  from h have h1: "is_lead 0xD83D" and h2: "is_trail 0xDE80" by simp_all
  from h1 h2 1 2 3 show ?thesis by (intro conjI)
qed

lemma array_from_no_surrogates:
  "\<forall>u \<in> set s. \<not> is_lead u \<Longrightarrow> array_from s = map (\<lambda>u. [u]) s"
  by (induction s rule: array_from.induct) auto

text \<open>
  Claim C2 (as the code has it). \<open>analyzeText\<close> cuts its input by code point, not by
  user-perceived character: the characters of the records are the elements of the string
  iterator. A string without lead surrogates gives one record per code unit, so a base
  letter followed by a combining mark gives two records, one for the letter and one for
  the mark.
\<close>

theorem analyze_splits_by_code_point:
  "(\<exists>rs. analyzeText W text = Inr rs \<and> map char_f rs = array_from text)
   \<and> ((\<forall>u \<in> set text. \<not> is_lead u) \<longrightarrow>
        (\<exists>rs. analyzeText W text = Inr rs \<and> map char_f rs = map (\<lambda>u. [u]) text
           \<and> length rs = length text))
   \<and> (\<not> is_lead b \<longrightarrow>
        (\<exists>r1 r2. analyzeText W [b, m] = Inr [r1, r2] \<and> char_f r1 = [b] \<and> char_f r2 = [m]))"
proof (intro conjI impI)
  show "\<exists>rs. analyzeText W text = Inr rs \<and> map char_f rs = array_from text"
    using analyzeText_total analyzeText_chars by blast
next
  assume a: "\<forall>u \<in> set text. \<not> is_lead u"
  obtain rs where rs: "analyzeText W text = Inr rs" using analyzeText_total by blast
  then have "map char_f rs = map (\<lambda>u. [u]) text"
    using a by (simp add: analyzeText_chars array_from_no_surrogates)
  moreover from this have "length rs = length text"
    using length_map by metis
  ultimately show "\<exists>rs. analyzeText W text = Inr rs \<and> map char_f rs = map (\<lambda>u. [u]) text
           \<and> length rs = length text"
    using rs by blast
next
  assume b: "\<not> is_lead b"
  obtain rs where rs: "analyzeText W [b, m] = Inr rs" using analyzeText_total by blast
  then have "map char_f rs = [[b], [m]]" using b by (simp add: analyzeText_chars)
  then obtain r1 r2 where "rs = [r1, r2]" and "char_f r1 = [b]" and "char_f r2 = [m]"
    by (auto simp: map_eq_Cons_conv)
  with rs show "\<exists>r1 r2. analyzeText W [b, m] = Inr [r1, r2] \<and> char_f r1 = [b] \<and> char_f r2 = [m]"
    by blast
qed

theorem analyze_splits_by_code_point_witness:
  "\<not> is_lead 0x65 \<and> \<not> is_lead 0x301
   \<and> (\<exists>r1 r2. analyzeText None [0x65, 0x301] = Inr [r1, r2]
          \<and> char_f r1 = [0x65] \<and> char_f r2 = [0x301])
   \<and> (\<exists>rs. analyzeText None [0x65, 0x301] = Inr rs \<and> map char_f rs = [[0x65], [0x301]]
          \<and> length rs = 2)"
proof -
  have h: "\<not> is_lead 0x65" "\<not> is_lead 0x301" by (simp_all add: is_lead_def)
  then have h': "\<forall>u \<in> set [0x65, 0x301]. \<not> is_lead u" by simp
  note t = analyze_splits_by_code_point [of None "[0x65, 0x301]" "0x65" "0x301"]
  from t h(1) have 1: "\<exists>r1 r2. analyzeText None [0x65, 0x301] = Inr [r1, r2]
          \<and> char_f r1 = [0x65] \<and> char_f r2 = [0x301]" by blast
  from t h' have "\<exists>rs. analyzeText None [0x65, 0x301] = Inr rs
      \<and> map char_f rs = map (\<lambda>u. [u]) [0x65, 0x301] \<and> length rs = length [0x65 :: 16 word, 0x301]"
    by blast
  then have 2: "\<exists>rs. analyzeText None [0x65, 0x301] = Inr rs \<and> map char_f rs = [[0x65], [0x301]]
          \<and> length rs = 2" by auto
  from h 1 2 show ?thesis by blast
qed

text \<open>
  Claim C2 as stated fails on the combining sequence e, U+0301 (one user-perceived
  character): it comes out as two records, one per code point.
\<close>

theorem combining_sequence_is_split:
  "analyzeText None [0x65, 0x301] = Inr
     [\<lparr> id_f = 0, char_f = [0x65], codePoint = ''U+0065'',
         utf8 = \<lparr> bytes = [0x65], length_f = 1, hex = ''65'', binary = ''01100101'' \<rparr>,
         sjis = \<lparr> bytes = [], length_f = 0, hex = [], binary = [], isValid = JNull \<rparr> \<rparr>,
      \<lparr> id_f = 1, char_f = [0x301], codePoint = ''U+0301'',
         utf8 = \<lparr> bytes = [0xCC, 0x81], length_f = 2, hex = ''CC 81'',
                  binary = ''11001100 10000001'' \<rparr>,
         sjis = \<lparr> bytes = [], length_f = 0, hex = [], binary = [], isValid = JNull \<rparr> \<rparr>]"
  by (simp add: eval_defs)

lemma foldl_add_sum: "foldl (\<lambda>acc item. acc + f item) (a :: nat) xs = a + sum_list (map f xs)"
  by (induction xs arbitrary: a) simp_all

text \<open>
  Claim C6. For every input, the total UTF-8 byte count of the converter view is the sum
  over the records of the length of the record's UTF-8 byte sequence, and the
  whole-string flag \<open>canFullSjis\<close> is false exactly when some record has a legacy
  \<open>isValid\<close> that is not true (false, or null when no bytes were produced).
\<close>

theorem aggregate_consistency:
  "\<exists>analysis. analyzeText W text = Inr analysis
     \<and> totalUtf8 analysis = sum_list (map (\<lambda>r. length (bytes (utf8 r))) analysis)
     \<and> (canFullSjis analysis = False \<longleftrightarrow> (\<exists>r \<in> set analysis. \<not> truthy (isValid (sjis r))))"
proof -
  obtain rs where rs: "analyzeText W text = Inr rs" using analyzeText_total by blast
  have "map (\<lambda>r. length_f (utf8 r)) rs = map (\<lambda>r. length (bytes (utf8 r))) rs"
  proof (rule map_cong [OF refl])
    fix r assume "r \<in> set rs"
    then obtain j where "j < length rs" and "r = rs ! j" by (auto simp: in_set_conv_nth)
    with rs show "length_f (utf8 r) = length (bytes (utf8 r))"
      by (simp add: analyzeText_length analyzeText_fields(4,5))
  qed
  then have 1: "totalUtf8 rs = sum_list (map (\<lambda>r. length (bytes (utf8 r))) rs)"
    by (simp only: totalUtf8_def foldl_add_sum add_0)
  have 2: "canFullSjis rs = False \<longleftrightarrow> (\<exists>r \<in> set rs. \<not> truthy (isValid (sjis r)))"
    by (auto simp: canFullSjis_def list_all_iff)
  from rs 1 2 show ?thesis by blast
qed

lemma sample_analysis_run:
  "analyzeText (Some table_lib) [0x3042, 0xD83D, 0xDE80] = Inr sample_analysis"
  unfolding sample_analysis_def by (simp add: eval_defs table_lib_def)

theorem aggregate_consistency_witness:
  "analyzeText (Some table_lib) [0x3042, 0xD83D, 0xDE80] = Inr sample_analysis
   \<and> totalUtf8 sample_analysis = 7 \<and> canFullSjis sample_analysis = False
   \<and> map (\<lambda>r. truthy (isValid (sjis r))) sample_analysis = [True, False]"
proof -
  from aggregate_consistency [of "Some table_lib" "[0x3042, 0xD83D, 0xDE80]"]
  obtain analysis where
    all: "analyzeText (Some table_lib) [0x3042, 0xD83D, 0xDE80] = Inr analysis
      \<and> totalUtf8 analysis = sum_list (map (\<lambda>r. length (bytes (utf8 r))) analysis)
      \<and> (canFullSjis analysis = False \<longleftrightarrow> (\<exists>r \<in> set analysis. \<not> truthy (isValid (sjis r))))" ..
  then have an: "analysis = sample_analysis" by (simp add: sample_analysis_run)
  from all have t: "totalUtf8 sample_analysis = sum_list (map (\<lambda>r. length (bytes (utf8 r))) sample_analysis)"
    unfolding an by (elim conjE)
  from all have c: "canFullSjis sample_analysis = False \<longleftrightarrow> (\<exists>r \<in> set sample_analysis. \<not> truthy (isValid (sjis r)))"
    unfolding an by (elim conjE)
  have s: "sum_list (map (\<lambda>r. length (bytes (utf8 r))) sample_analysis) = 7"
    by (simp add: sample_analysis_def)
  have b: "\<exists>r \<in> set sample_analysis. \<not> truthy (isValid (sjis r))"
    by (simp add: sample_analysis_def)
  have m: "map (\<lambda>r. truthy (isValid (sjis r))) sample_analysis = [True, False]"
    by (simp add: sample_analysis_def)
  from t s have t': "totalUtf8 sample_analysis = 7" by (rule trans)
  from c b have c': "canFullSjis sample_analysis = False" by (rule iffD2)
  from sample_analysis_run t' c' m show ?thesis by (intro conjI)
qed

lemma toSJISArray_None_iff: "toSJISArray W c = None \<longleftrightarrow> codec_unavailable_or_throws W c"
  by (simp add: toSJISArray_def codec_unavailable_or_throws_def split: option.splits sum.splits)

lemma toSJISArray_Some:
  "stringToCode lib c = Inr u \<Longrightarrow> convert_array lib u SJIS UNICODE = Inr bs \<Longrightarrow>
   convert_string lib bs UNICODE SJIS = Inr back \<Longrightarrow> toSJISArray (Some lib) c = Some bs"
  by (simp add: toSJISArray_def)

lemma code_points_nonempty: "c \<noteq> [] \<Longrightarrow> code_points c \<noteq> []"
  by (cases c rule: code_points.cases) auto

lemma utf8_bytes_nonempty: "utf8_bytes cp \<noteq> []"
  by (simp add: utf8_bytes_def)

lemma toUTF8Array_nonempty: "c \<noteq> [] \<Longrightarrow> toUTF8Array c \<noteq> []"
proof -
  assume "c \<noteq> []"
  then obtain x xs where "code_points c = x # xs"
    using code_points_nonempty by (cases "code_points c") auto
  then show ?thesis by (simp add: toUTF8Array_def utf8_bytes_nonempty)
qed

lemma analyzeText_char_at:
  "analyzeText W text = Inr rs \<Longrightarrow> j < length (array_from text) \<Longrightarrow>
   analyzeChar W (array_from text ! j) j = Inr (rs ! j)"
  by (simp add: analyzeText_Inr_iff)

text \<open>
  Claim C3. If, for the character at position \<open>j\<close> of the input, the legacy codec is
  absent or one of its calls throws, then \<open>analyzeText\<close> still returns (no exception
  leaves it), with one record per character; the record at \<open>j\<close> has a legacy
  \<open>isValid\<close> that is not true (it is null), empty legacy bytes and renderings and
  legacy length 0; its UTF-8 fields are the non-empty UTF-8 bytes of the character and
  their renderings; and every record at another position \<open>k\<close> is the record any run
  gives whose codec treats the character at \<open>k\<close> the same way.
\<close>

theorem legacy_failure_stays_local:
  assumes "j < length (array_from text)"
    and "codec_unavailable_or_throws W (array_from text ! j)"
  shows "\<exists>rs. analyzeText W text = Inr rs \<and> length rs = length (array_from text)
     \<and> isValid (sjis (rs ! j)) = JNull \<and> \<not> truthy (isValid (sjis (rs ! j)))
     \<and> bytes (sjis (rs ! j)) = [] \<and> hex (sjis (rs ! j)) = [] \<and> binary (sjis (rs ! j)) = []
     \<and> length_f (sjis (rs ! j)) = 0
     \<and> char_f (rs ! j) = array_from text ! j
     \<and> bytes (utf8 (rs ! j)) = toUTF8Array (array_from text ! j)
     \<and> bytes (utf8 (rs ! j)) \<noteq> []
     \<and> length_f (utf8 (rs ! j)) = length (bytes (utf8 (rs ! j)))
     \<and> hex (utf8 (rs ! j)) = toHexString (Some (bytes (utf8 (rs ! j))))
     \<and> binary (utf8 (rs ! j)) = toBinaryString (Some (bytes (utf8 (rs ! j))))
     \<and> (\<forall>W' rs' k. analyzeText W' text = Inr rs' \<and> k < length (array_from text) \<and> k \<noteq> j
            \<and> toSJISArray W' (array_from text ! k) = toSJISArray W (array_from text ! k)
          \<longrightarrow> rs' ! k = rs ! k)"
proof -
  obtain rs where rs: "analyzeText W text = Inr rs" using analyzeText_total by blast
  note f = analyzeText_fields [OF rs assms(1)]
  from assms(2) have n: "toSJISArray W (array_from text ! j) = None"
    by (simp add: toSJISArray_None_iff)
  have ne: "array_from text ! j \<noteq> []"
    using assms(1) array_from_nonempty [of "array_from text ! j" "text"] by simp
  have 1: "length rs = length (array_from text)" using rs by (rule analyzeText_length)
  have 2: "isValid (sjis (rs ! j)) = JNull" using f(9) n by (simp add: isSjisValid_def)
  have 3: "bytes (sjis (rs ! j)) = []" using f(8) n by simp
  have 4: "hex (sjis (rs ! j)) = []" using f(10) 3 by (simp add: toHexString_def)
  have 5: "binary (sjis (rs ! j)) = []" using f(11) 3 by (simp add: toBinaryString_def)
  have 6: "length_f (sjis (rs ! j)) = 0" using f(12) 2 by simp
  have 7: "bytes (utf8 (rs ! j)) \<noteq> []" using f(4) ne by (simp add: toUTF8Array_nonempty)
  have 8: "\<forall>W' rs' k. analyzeText W' text = Inr rs' \<and> k < length (array_from text) \<and> k \<noteq> j
            \<and> toSJISArray W' (array_from text ! k) = toSJISArray W (array_from text ! k)
          \<longrightarrow> rs' ! k = rs ! k"
  proof (intro allI impI)
    fix W' rs' k
    assume a: "analyzeText W' text = Inr rs' \<and> k < length (array_from text) \<and> k \<noteq> j
            \<and> toSJISArray W' (array_from text ! k) = toSJISArray W (array_from text ! k)"
    then have rs': "analyzeText W' text = Inr rs'" and k: "k < length (array_from text)"
      and eq: "toSJISArray W' (array_from text ! k) = toSJISArray W (array_from text ! k)"
      by simp_all
    from analyzeText_nth [OF rs' k] analyzeText_nth [OF rs k] eq
    show "rs' ! k = rs ! k" by auto
  qed
  have 12: "\<not> truthy (isValid (sjis (rs ! j)))" using 2 by simp
  have 9: "length_f (utf8 (rs ! j)) = length (bytes (utf8 (rs ! j)))" using f(4,5) by simp
  have 10: "hex (utf8 (rs ! j)) = toHexString (Some (bytes (utf8 (rs ! j))))" using f(4,6) by simp
  have 11: "binary (utf8 (rs ! j)) = toBinaryString (Some (bytes (utf8 (rs ! j))))"
    using f(4,7) by simp
  from rs 1 2 12 3 4 5 6 f(2) f(4) 7 9 10 11 8 show ?thesis by (intro exI conjI)
qed

theorem legacy_failure_stays_local_witness:
  "codec_unavailable_or_throws (Some table_lib) [0xD800]
   \<and> array_from [0x3042, 0xD800] = [[0x3042], [0xD800]]
   \<and> (\<exists>rs. analyzeText (Some table_lib) [0x3042, 0xD800] = Inr rs \<and> length rs = 2
         \<and> isValid (sjis (rs ! 1)) = JNull \<and> bytes (sjis (rs ! 1)) = []
         \<and> bytes (utf8 (rs ! 1)) = [0xEF, 0xBF, 0xBD]
         \<and> rs ! 0 = hd sample_analysis)"
proof -
  have af: "array_from [0x3042, 0xD800] = [[0x3042], [0xD800]]"
    by (simp add: is_lead_def is_trail_def)
  have af2: "array_from [0x3042, 0xD83D, 0xDE80] = [[0x3042], [0xD83D, 0xDE80]]"
    by (simp add: is_lead_def is_trail_def)
  have thr: "codec_unavailable_or_throws (Some table_lib) [0xD800]"
    by (simp add: codec_unavailable_or_throws_def table_lib_def)
  have u: "toUTF8Array [0xD800] = [0xEF, 0xBF, 0xBD]" by (simp add: eval_defs)
  have j: "1 < length (array_from [0x3042, 0xD800])" unfolding af by simp
  have thr': "codec_unavailable_or_throws (Some table_lib) (array_from [0x3042, 0xD800] ! 1)"
    unfolding af using thr by simp
  from legacy_failure_stays_local [OF j thr']
  obtain rs where rs: "analyzeText (Some table_lib) [0x3042, 0xD800] = Inr rs"
    and len: "length rs = length (array_from [0x3042, 0xD800])"
    and v: "isValid (sjis (rs ! 1)) = JNull" and b: "bytes (sjis (rs ! 1)) = []"
    and ub: "bytes (utf8 (rs ! 1)) = toUTF8Array (array_from [0x3042, 0xD800] ! 1)"
    by (elim exE conjE)
  have "0 < length (array_from [0x3042, 0xD800])" unfolding af by simp
  with rs have "analyzeChar (Some table_lib) (array_from [0x3042, 0xD800] ! 0) 0 = Inr (rs ! 0)"
    by (rule analyzeText_char_at)
  moreover have "0 < length (array_from [0x3042, 0xD83D, 0xDE80])" unfolding af2 by simp
  with sample_analysis_run
  have "analyzeChar (Some table_lib) (array_from [0x3042, 0xD83D, 0xDE80] ! 0) 0
      = Inr (sample_analysis ! 0)"
    by (rule analyzeText_char_at)
  ultimately have z: "rs ! 0 = hd sample_analysis"
    unfolding af af2 by (simp add: sample_analysis_def)
  from len have len': "length rs = 2" unfolding af by simp
  from ub have ub': "bytes (utf8 (rs ! 1)) = [0xEF, 0xBF, 0xBD]" unfolding af by (simp add: u)
  from thr af rs len' v b ub' z show ?thesis by (intro exI conjI)
qed

lemma analyzeText_one:
  assumes "array_from c = [c]"
  obtains r where "analyzeText W c = Inr [r]" and "analyzeChar W c 0 = Inr r"
proof -
  obtain rs where rs: "analyzeText W c = Inr rs" using analyzeText_total by blast
  then have "length rs = 1" using assms by (simp add: analyzeText_length)
  then obtain r where r: "rs = [r]" by (cases rs) auto
  have "0 < length (array_from c)" using assms by simp
  with rs have "analyzeChar W (array_from c ! 0) 0 = Inr (rs ! 0)" by (rule analyzeText_char_at)
  then have "analyzeChar W c 0 = Inr r" using assms r by simp
  with rs r show thesis using that by simp
qed

lemma analyzeText_one_fields:
  assumes "array_from c = [c]" and "analyzeText W c = Inr [r]"
  shows "bytes (sjis r) = (case toSJISArray W c of None \<Rightarrow> [] | Some s \<Rightarrow> s)"
    and "isValid (sjis r) = isSjisValid (toSJISArray W c) c"
    and "hex (sjis r) = toHexString (Some (bytes (sjis r)))"
    and "hex (utf8 r) = toHexString (Some (toUTF8Array c))"
    and "\<exists>cp. codePointAt0 c = Some cp \<and> codePoint r = codePoint_label cp"
    and "char_f r = c"
proof -
  have j: "0 < length (array_from c)" using assms(1) by simp
  note f = analyzeText_fields [OF assms(2) j]
  show "bytes (sjis r) = (case toSJISArray W c of None \<Rightarrow> [] | Some s \<Rightarrow> s)"
    using f(8) assms(1) by simp
  show "isValid (sjis r) = isSjisValid (toSJISArray W c) c" using f(9) assms(1) by simp
  show "hex (sjis r) = toHexString (Some (bytes (sjis r)))" using f(10) by simp
  show "hex (utf8 r) = toHexString (Some (toUTF8Array c))" using f(6) assms(1) by simp
  show "\<exists>cp. codePointAt0 c = Some cp \<and> codePoint r = codePoint_label cp"
    using f(3) assms(1) by simp
  show "char_f r = c" using f(2) assms(1) by simp
qed

text \<open>
  Claim C7. With the library present: for a single character other than the question
  mark that the library's encoder answers with the one substitute byte 3F (as it answers
  an emoji), the record carries that byte (its legacy bytes are not empty) and its
  \<open>isValid\<close> is false.
\<close>

theorem substitute_byte_is_not_valid:
  assumes "array_from c = [c]" and "c \<noteq> [0x3F]"
    and "stringToCode lib c = Inr u"
    and "convert_array lib u SJIS UNICODE = Inr [0x3F]"
    and "convert_string lib [0x3F] UNICODE SJIS = Inr back"
  shows "\<exists>r. analyzeText (Some lib) c = Inr [r] \<and> bytes (sjis r) = [0x3F]
     \<and> bytes (sjis r) \<noteq> [] \<and> isValid (sjis r) = JBool False"
proof -
  obtain r where r: "analyzeText (Some lib) c = Inr [r]"
    using analyzeText_one [OF assms(1)] by blast
  have s: "toSJISArray (Some lib) c = Some [0x3F]"
    using assms(3,4,5) by (rule toSJISArray_Some)
  note f = analyzeText_one_fields [OF assms(1) r]
  have 1: "bytes (sjis r) = [0x3F]" using f(1) s by simp
  then have 2: "bytes (sjis r) \<noteq> []" by simp
  have 3: "isValid (sjis r) = JBool False" using f(2) s assms(2) by (simp add: isSjisValid_def)
  from r 1 2 3 show ?thesis by (intro exI conjI)
qed

theorem substitute_byte_is_not_valid_witness:
  "array_from [0xD83D, 0xDE80] = [[0xD83D, 0xDE80]]
   \<and> stringToCode table_lib [0xD83D, 0xDE80] = Inr [0xD83D, 0xDE80]
   \<and> convert_array table_lib [0xD83D, 0xDE80] SJIS UNICODE = Inr [0x3F]
   \<and> convert_string table_lib [0x3F] UNICODE SJIS = Inr [0x3F]
   \<and> (\<exists>r. analyzeText (Some table_lib) [0xD83D, 0xDE80] = Inr [r] \<and> bytes (sjis r) = [0x3F]
         \<and> bytes (sjis r) \<noteq> [] \<and> isValid (sjis r) = JBool False)"
proof -
  have a: "array_from [0xD83D, 0xDE80] = [[0xD83D, 0xDE80]]"
    by (simp add: is_lead_def is_trail_def)
  have n: "[0xD83D, 0xDE80] \<noteq> [0x3F :: 16 word]" by simp
  have s: "stringToCode table_lib [0xD83D, 0xDE80] = Inr [0xD83D, 0xDE80]"
    by (simp add: table_lib_def)
  have e: "convert_array table_lib [0xD83D, 0xDE80] SJIS UNICODE = Inr [0x3F]"
    by (simp add: table_lib_def)
  have d: "convert_string table_lib [0x3F] UNICODE SJIS = Inr [0x3F]"
    by (simp add: table_lib_def)
  from a s e d substitute_byte_is_not_valid [OF a n s e d] show ?thesis by (intro conjI)
qed

text \<open>
  Claim C8. \<open>analyzeText\<close> on the one letter U+3042 returns exactly one record, with code
  point label U+3042 and UTF-8 hex E3 81 82. Without the library its legacy \<open>isValid\<close>
  is not true (null) and its legacy bytes are empty. With a library whose encoder gives
  the Shift-JIS bytes 82 A0 for the letter (and whose decoder returns on them), the legacy
  hex is 82 A0 and \<open>isValid\<close> is true. In every record of every run the label is U+
  followed by at least four digits out of 0-9 and A-F that, read in base 16, are the code
  point of the record's character.
\<close>

theorem fixture_hiragana_a:
  "(\<exists>r. analyzeText None [0x3042] = Inr [r] \<and> codePoint r = ''U+3042''
        \<and> hex (utf8 r) = ''E3 81 82''
        \<and> \<not> truthy (isValid (sjis r)) \<and> isValid (sjis r) = JNull \<and> bytes (sjis r) = [])
   \<and> (stringToCode lib [0x3042] = Inr u \<and> convert_array lib u SJIS UNICODE = Inr [0x82, 0xA0]
        \<and> convert_string lib [0x82, 0xA0] UNICODE SJIS = Inr back
      \<longrightarrow> (\<exists>r. analyzeText (Some lib) [0x3042] = Inr [r] \<and> codePoint r = ''U+3042''
             \<and> hex (utf8 r) = ''E3 81 82''
             \<and> hex (sjis r) = ''82 A0'' \<and> isValid (sjis r) = JBool True))
   \<and> (analyzeText W text = Inr rs \<and> j < length rs
      \<longrightarrow> (\<exists>digits. codePoint (rs ! j) = ''U+'' @ digits \<and> 4 \<le> length digits
             \<and> set digits \<subseteq> set ''0123456789ABCDEF''
             \<and> codePointAt0 (char_f (rs ! j)) = Some (parse_radix 16 digits)))"
proof (intro conjI impI)
  show "\<exists>r. analyzeText None [0x3042] = Inr [r] \<and> codePoint r = ''U+3042''
        \<and> hex (utf8 r) = ''E3 81 82''
        \<and> \<not> truthy (isValid (sjis r)) \<and> isValid (sjis r) = JNull \<and> bytes (sjis r) = []"
    by (simp add: eval_defs)
next
  assume a: "stringToCode lib [0x3042] = Inr u \<and> convert_array lib u SJIS UNICODE = Inr [0x82, 0xA0]
        \<and> convert_string lib [0x82, 0xA0] UNICODE SJIS = Inr back"
  have af: "array_from [0x3042] = [[0x3042]]" by simp
  obtain r where r: "analyzeText (Some lib) [0x3042] = Inr [r]"
    using analyzeText_one [OF af] by blast
  from a have a1: "stringToCode lib [0x3042] = Inr u"
    and a2: "convert_array lib u SJIS UNICODE = Inr [0x82, 0xA0]"
    and a3: "convert_string lib [0x82, 0xA0] UNICODE SJIS = Inr back" by simp_all
  from a1 a2 a3 have s: "toSJISArray (Some lib) [0x3042] = Some [0x82, 0xA0]"
    by (rule toSJISArray_Some)
  note f = analyzeText_one_fields [OF af r]
  have 1: "codePoint r = ''U+3042''" using f(5) by (simp add: eval_defs)
  have 2: "hex (utf8 r) = ''E3 81 82''" using f(4) by (simp add: eval_defs)
  have "bytes (sjis r) = [0x82, 0xA0]" using f(1) s by simp
  then have 3: "hex (sjis r) = ''82 A0''" using f(3) by (simp add: eval_defs)
  have 4: "isValid (sjis r) = JBool True" using f(2) s by (simp add: isSjisValid_def)
  from r 1 2 3 4
  show "\<exists>r. analyzeText (Some lib) [0x3042] = Inr [r] \<and> codePoint r = ''U+3042''
             \<and> hex (utf8 r) = ''E3 81 82''
             \<and> hex (sjis r) = ''82 A0'' \<and> isValid (sjis r) = JBool True"
    by (intro exI conjI)
next
  assume a: "analyzeText W text = Inr rs \<and> j < length rs"
  then have rs: "analyzeText W text = Inr rs" by simp
  from a have j: "j < length (array_from text)"
    using analyzeText_length [OF rs] by simp
  note f = analyzeText_fields [OF rs j]
  from f(3) obtain cp where cp: "codePointAt0 (array_from text ! j) = Some cp"
    and l: "codePoint (rs ! j) = codePoint_label cp" by blast
  let ?d = "padStart 4 CHR ''0'' (toUpperCase (toString_radix 16 cp))"
  have 1: "codePoint (rs ! j) = ''U+'' @ ?d" using l by (simp add: codePoint_label_def)
  have 2: "4 \<le> length ?d" by (simp add: padStart_def)
  have 3: "set ?d \<subseteq> set ''0123456789ABCDEF''"
  proof
    fix x assume "x \<in> set ?d"
    then have "x = CHR ''0'' \<or> x \<in> set (toUpperCase (toString_radix 16 cp))"
      by (auto simp: padStart_def)
    then show "x \<in> set ''0123456789ABCDEF''"
    proof
      assume "x = CHR ''0''" then show ?thesis by simp
    next
      assume "x \<in> set (toUpperCase (toString_radix 16 cp))"
      then obtain c' where "c' \<in> set (toString_radix 16 cp)" and c: "x = upper_char c'"
        by (auto simp: toUpperCase_map)
      then obtain d where "d < 16" and "c' = digit_char d"
        using digits_lt [of 16 c' cp] by auto
      with c show ?thesis using up_digit_in by simp
    qed
  qed
  have "parse_radix 16 (map upper_char (toString_radix 16 cp)) = cp"
    by (rule parse_map_toString) (simp_all add: digit_value_up)
  then have 4: "codePointAt0 (char_f (rs ! j)) = Some (parse_radix 16 ?d)"
    using cp f(2) by (simp add: padStart_def parse_radix_zeros toUpperCase_map)
  from 1 2 3 4
  show "\<exists>digits. codePoint (rs ! j) = ''U+'' @ digits \<and> 4 \<le> length digits
             \<and> set digits \<subseteq> set ''0123456789ABCDEF''
             \<and> codePointAt0 (char_f (rs ! j)) = Some (parse_radix 16 digits)"
    by (intro exI conjI)
qed

theorem fixture_hiragana_a_witness:
  "stringToCode table_lib [0x3042] = Inr [0x3042]
   \<and> convert_array table_lib [0x3042] SJIS UNICODE = Inr [0x82, 0xA0]
   \<and> convert_string table_lib [0x82, 0xA0] UNICODE SJIS = Inr [0x3042]
   \<and> (\<exists>r. analyzeText (Some table_lib) [0x3042] = Inr [r] \<and> codePoint r = ''U+3042''
         \<and> hex (utf8 r) = ''E3 81 82''
         \<and> hex (sjis r) = ''82 A0'' \<and> isValid (sjis r) = JBool True)
   \<and> analyzeText (Some table_lib) [0x3042, 0xD83D, 0xDE80] = Inr sample_analysis
   \<and> (\<exists>digits. codePoint (sample_analysis ! 1) = ''U+'' @ digits \<and> 4 \<le> length digits
         \<and> set digits \<subseteq> set ''0123456789ABCDEF''
         \<and> codePointAt0 (char_f (sample_analysis ! 1)) = Some (parse_radix 16 digits))"
proof -
  have s: "stringToCode table_lib [0x3042] = Inr [0x3042]"
    by (simp add: table_lib_def)
  have e: "convert_array table_lib [0x3042] SJIS UNICODE = Inr [0x82, 0xA0]"
    by (simp add: table_lib_def)
  have d: "convert_string table_lib [0x82, 0xA0] UNICODE SJIS = Inr [0x3042]"
    by (simp add: table_lib_def)
  have l: "1 < length sample_analysis" by (simp add: sample_analysis_def)
  note t = fixture_hiragana_a [of table_lib "[0x3042]" "[0x3042]" "Some table_lib"
      "[0x3042, 0xD83D, 0xDE80]" sample_analysis 1]
  from t s e d have 1: "\<exists>r. analyzeText (Some table_lib) [0x3042] = Inr [r] \<and> codePoint r = ''U+3042''
         \<and> hex (utf8 r) = ''E3 81 82''
         \<and> hex (sjis r) = ''82 A0'' \<and> isValid (sjis r) = JBool True" by blast
  from t sample_analysis_run l
  have 2: "\<exists>digits. codePoint (sample_analysis ! 1) = ''U+'' @ digits \<and> 4 \<le> length digits
         \<and> set digits \<subseteq> set ''0123456789ABCDEF''
         \<and> codePointAt0 (char_f (sample_analysis ! 1)) = Some (parse_radix 16 digits)" by blast
  from s e d 1 sample_analysis_run 2 show ?thesis by (intro conjI)
qed

text \<open>
  Claim C1 (as the code has it). For a single character \<open>c\<close> that the library encodes
  to \<open>bs\<close> and whose bytes it decodes back without throwing, the record carries
  \<open>bs\<close> and its \<open>isValid\<close> is true exactly when \<open>bs\<close> is not the one substitute byte
  3F, or \<open>c\<close> is the question mark itself. The string decoded back does not enter the
  flag: validity is decided by the byte count and byte value of \<open>bs\<close>.
\<close>

theorem validity_is_decided_by_the_bytes:
  assumes "array_from c = [c]"
    and "stringToCode lib c = Inr u"
    and "convert_array lib u SJIS UNICODE = Inr bs"
    and "convert_string lib bs UNICODE SJIS = Inr back"
  shows "\<exists>r. analyzeText (Some lib) c = Inr [r] \<and> bytes (sjis r) = bs
     \<and> isValid (sjis r) = JBool (\<not> (bs = [0x3F] \<and> c \<noteq> [0x3F]))"
proof -
  obtain r where r: "analyzeText (Some lib) c = Inr [r]"
    using analyzeText_one [OF assms(1)] by blast
  have s: "toSJISArray (Some lib) c = Some bs"
    using assms(2,3,4) by (rule toSJISArray_Some)
  note f = analyzeText_one_fields [OF assms(1) r]
  have 1: "bytes (sjis r) = bs" using f(1) s by simp
  have eq: "(length bs = 1 \<and> bs ! 0 = 0x3F \<and> c \<noteq> [0x3F]) = (bs = [0x3F] \<and> c \<noteq> [0x3F])"
    by (cases bs) auto
  have "isValid (sjis r) = isSjisValid (Some bs) c" using f(2) s by simp
  then have "isValid (sjis r) = JBool (\<not> (length bs = 1 \<and> bs ! 0 = 0x3F \<and> c \<noteq> [0x3F]))"
    by (simp only: isSjisValid_def option.case)
  then have 2: "isValid (sjis r) = JBool (\<not> (bs = [0x3F] \<and> c \<noteq> [0x3F]))"
    unfolding eq .
  from r 1 2 show ?thesis by (intro exI conjI)
qed

theorem validity_is_decided_by_the_bytes_witness:
  "array_from [0xA5] = [[0xA5]]
   \<and> stringToCode table_lib [0xA5] = Inr [0xA5]
   \<and> convert_array table_lib [0xA5] SJIS UNICODE = Inr [0x5C]
   \<and> convert_string table_lib [0x5C] UNICODE SJIS = Inr [0x5C]
   \<and> (\<exists>r. analyzeText (Some table_lib) [0xA5] = Inr [r] \<and> bytes (sjis r) = [0x5C]
         \<and> isValid (sjis r) = JBool True)"
proof -
  have a: "array_from [0xA5] = [[0xA5]]" by simp
  have s: "stringToCode table_lib [0xA5] = Inr [0xA5]" by (simp add: table_lib_def)
  have e: "convert_array table_lib [0xA5] SJIS UNICODE = Inr [0x5C]"
    by (simp add: table_lib_def)
  have d: "convert_string table_lib [0x5C] UNICODE SJIS = Inr [0x5C]"
    by (simp add: table_lib_def)
  from validity_is_decided_by_the_bytes [OF a s e d]
  have "\<exists>r. analyzeText (Some table_lib) [0xA5] = Inr [r] \<and> bytes (sjis r) = [0x5C]
         \<and> isValid (sjis r) = JBool True" by simp
  with a s e d show ?thesis by (intro conjI)
qed

text \<open>
  Claim C1 as stated fails on the yen sign through the sample codec: it encodes to the
  byte 5C, which decodes to the backslash and not to the yen sign, and the record's
  \<open>isValid\<close> is true all the same.
\<close>

theorem valid_without_round_trip:
  "analyzeText (Some table_lib) [0xA5] = Inr
     [\<lparr> id_f = 0, char_f = [0xA5], codePoint = ''U+00A5'',
         utf8 = \<lparr> bytes = [0xC2, 0xA5], length_f = 2, hex = ''C2 A5'',
                  binary = ''11000010 10100101'' \<rparr>,
         sjis = \<lparr> bytes = [0x5C], length_f = 1, hex = ''5C'', binary = ''01011100'',
                  isValid = JBool True \<rparr> \<rparr>]
   \<and> stringToCode table_lib [0xA5] = Inr [0xA5]
   \<and> convert_array table_lib [0xA5] SJIS UNICODE = Inr [0x5C]
   \<and> convert_string table_lib [0x5C] UNICODE SJIS = Inr [0x5C]
   \<and> [0x5C] \<noteq> [0xA5 :: 16 word]"
  by (simp add: eval_defs table_lib_def)

section \<open>Claims about the simulator\<close>

text \<open>
  Claim C9 (as the code has it). For a non-empty input: without the library the effect
  returns without setting either output, so both keep the value they had (the empty
  string at first). With the library, the UTF-8-read-as-Shift-JIS output is the decoded
  string, or the conversion-error text when decoding throws; the
  Shift-JIS-read-as-UTF-8 output is the Shift-JIS-unsupported text when no legacy bytes
  were produced (null or empty), and otherwise the decoded string, or the
  conversion-error text when decoding throws. The effect always returns.
\<close>

theorem simulator_outputs:
  assumes "input \<noteq> []"
  shows "simulator_effect None input st = st
     \<and> (convert_string lib (toUTF8Array input) UNICODE SJIS = Inl e \<longrightarrow>
          utf8ToSjis (simulator_effect (Some lib) input st) = conversion_error_text)
     \<and> (convert_string lib (toUTF8Array input) UNICODE SJIS = Inr g \<longrightarrow>
          utf8ToSjis (simulator_effect (Some lib) input st) = g)
     \<and> (toSJISArray (Some lib) input = Some bs \<and> bs \<noteq> []
          \<and> convert_string lib bs UNICODE UTF8 = Inl e \<longrightarrow>
          sjisToUtf8 (simulator_effect (Some lib) input st) = conversion_error_text)
     \<and> (toSJISArray (Some lib) input = Some bs \<and> bs \<noteq> []
          \<and> convert_string lib bs UNICODE UTF8 = Inr g \<longrightarrow>
          sjisToUtf8 (simulator_effect (Some lib) input st) = g)
     \<and> (toSJISArray (Some lib) input = None \<or> toSJISArray (Some lib) input = Some [] \<longrightarrow>
          sjisToUtf8 (simulator_effect (Some lib) input st) = sjis_unsupported_text)"
  using assms
  by (auto simp: simulator_effect_def Let_def split: sum.splits option.splits)

theorem simulator_outputs_witness:
  "simulator_effect None [0x3042] initial_sim = initial_sim
   \<and> utf8ToSjis (simulator_effect (Some throwing_lib) [0x3042] initial_sim) = conversion_error_text
   \<and> sjisToUtf8 (simulator_effect (Some throwing_lib) [0x3042] initial_sim) = sjis_unsupported_text
   \<and> utf8ToSjis (simulator_effect (Some table_lib) [0x3042] initial_sim) = [0xFFFD, 0xFFFD, 0xFFFD]
   \<and> sjisToUtf8 (simulator_effect (Some table_lib) [0x3042] initial_sim) = conversion_error_text
   \<and> sjisToUtf8 (simulator_effect (Some table_lib) [0x41] initial_sim) = [0x41]"
proof -
  have n: "[0x3042] \<noteq> ([] :: jsstring)" "[0x41] \<noteq> ([] :: jsstring)" by simp_all
  have u: "toUTF8Array [0x3042] = [0xE3, 0x81, 0x82]" by (simp add: eval_defs)
  have 1: "simulator_effect None [0x3042] initial_sim = initial_sim"
    using simulator_outputs [OF n(1), of initial_sim] by (rule conjunct1)
  have "convert_string throwing_lib (toUTF8Array [0x3042]) UNICODE SJIS = Inl LibraryError"
    by (simp add: throwing_lib_def)
  with simulator_outputs [OF n(1), of initial_sim throwing_lib LibraryError]
  have 2: "utf8ToSjis (simulator_effect (Some throwing_lib) [0x3042] initial_sim) = conversion_error_text"
    by blast
  have "toSJISArray (Some throwing_lib) [0x3042] = None"
    by (simp add: toSJISArray_def throwing_lib_def)
  with simulator_outputs [OF n(1), of initial_sim throwing_lib]
  have 3: "sjisToUtf8 (simulator_effect (Some throwing_lib) [0x3042] initial_sim) = sjis_unsupported_text"
    by blast
  have "convert_string table_lib (toUTF8Array [0x3042]) UNICODE SJIS = Inr [0xFFFD, 0xFFFD, 0xFFFD]"
    unfolding u by (simp add: table_lib_def)
  with simulator_outputs [OF n(1), of initial_sim table_lib _ "[0xFFFD, 0xFFFD, 0xFFFD]"]
  have 4: "utf8ToSjis (simulator_effect (Some table_lib) [0x3042] initial_sim) = [0xFFFD, 0xFFFD, 0xFFFD]"
    by blast
  have "toSJISArray (Some table_lib) [0x3042] = Some [0x82, 0xA0] \<and> [0x82, 0xA0] \<noteq> ([] :: nat list)
      \<and> convert_string table_lib [0x82, 0xA0] UNICODE UTF8 = Inl LibraryError"
    by (simp add: toSJISArray_def table_lib_def)
  with simulator_outputs [OF n(1), of initial_sim table_lib LibraryError _ "[0x82, 0xA0]"]
  have 5: "sjisToUtf8 (simulator_effect (Some table_lib) [0x3042] initial_sim) = conversion_error_text"
    by blast
  have "toSJISArray (Some table_lib) [0x41] = Some [0x41] \<and> [0x41] \<noteq> ([] :: nat list)
      \<and> convert_string table_lib [0x41] UNICODE UTF8 = Inr [0x41]"
    by (simp add: toSJISArray_def table_lib_def)
  with simulator_outputs [OF n(2), of initial_sim table_lib _ "[0x41]" "[0x41]"]
  have 6: "sjisToUtf8 (simulator_effect (Some table_lib) [0x41] initial_sim) = [0x41]"
    by blast
  from 1 2 3 4 5 6 show ?thesis by (intro conjI)
qed

text \<open>
  Claim C9 as stated fails without the library: on a non-empty input the simulator
  leaves both outputs blank, and the blank is neither of the two state texts.
\<close>

theorem simulator_blank_without_library:
  "utf8ToSjis (simulator_effect None [0x3042] initial_sim) = []
   \<and> sjisToUtf8 (simulator_effect None [0x3042] initial_sim) = []
   \<and> [] \<noteq> conversion_error_text \<and> [] \<noteq> sjis_unsupported_text"
  by (simp add: simulator_effect_def initial_sim_def conversion_error_text_def
      sjis_unsupported_text_def)

section \<open>The module version against the inlined one\<close>

lemma toHexString_module_eq: "toHexString_module bs = toHexString (Some bs)"
  by (simp add: toHexString_module_def toHexString_def)

lemma toBinaryString_module_eq: "toBinaryString_module bs = toBinaryString (Some bs)"
  by (simp add: toBinaryString_module_def toBinaryString_def)

lemma analyzeText_module_Inr_iff:
  "analyzeText_module W text = Inr ms \<longleftrightarrow>
     length ms = length (array_from text) \<and>
     (\<forall>j < length (array_from text). analyzeChar_module W (array_from text ! j) j = Inr (ms ! j))"
proof (cases "text = []")
  case True
  then show ?thesis by (auto simp: analyzeText_module_def)
next
  case False
  then show ?thesis
    using map_indexed_Inr_iff [of "analyzeChar_module W" 0 "array_from text" ms]
    by (simp add: analyzeText_module_def)
qed

lemma analyzeChar_module_Inr:
  assumes "analyzeChar_module W c i = Inr m"
  shows "m_char m = c"
    and "\<exists>cp. codePointAt0 c = Some cp \<and> m_codePoint m = codePoint_label cp"
    and "m_bytes (m_utf8 m) = toUTF8Array c"
    and "m_hex (m_utf8 m) = toHexString (Some (toUTF8Array c))"
    and "m_binary (m_utf8 m) = toBinaryString (Some (toUTF8Array c))"
  using assms
  by (auto simp: analyzeChar_module_def Let_def toHexString_module_eq toBinaryString_module_eq
      split: sum.splits option.splits)

lemma analyzeChar_module_returns:
  "c \<noteq> [] \<Longrightarrow> toSJISArray_module W c = Inr bs \<Longrightarrow> \<exists>m. analyzeChar_module W c i = Inr m"
  using codePointAt0_None_iff [of c]
  by (auto simp: analyzeChar_module_def Let_def split: option.splits)

lemma analyzeChar_module_throws:
  "toSJISArray_module W c = Inl e \<Longrightarrow> analyzeChar_module W c i = Inl e"
  by (simp add: analyzeChar_module_def Let_def)

text \<open>
  Claim C10 (as the code has it). Whenever the module version returns, the inlined
  version returns a sequence of the same length whose records agree with the module's on
  the character, the code point label and the UTF-8 bytes, hex and binary. The module
  version returns when the library is absent or its encoder throws on no character of
  the input; when the encoder throws on some character, the module version throws and
  the inlined version still returns its records.
\<close>

theorem module_and_inlined_agree:
  "(analyzeText_module W text = Inr ms \<longrightarrow>
      (\<exists>rs. analyzeText W text = Inr rs \<and> length rs = length ms
         \<and> (\<forall>j < length ms. char_f (rs ! j) = m_char (ms ! j)
               \<and> codePoint (rs ! j) = m_codePoint (ms ! j)
               \<and> bytes (utf8 (rs ! j)) = m_bytes (m_utf8 (ms ! j))
               \<and> hex (utf8 (rs ! j)) = m_hex (m_utf8 (ms ! j))
               \<and> binary (utf8 (rs ! j)) = m_binary (m_utf8 (ms ! j)))))
   \<and> ((\<forall>c \<in> set (array_from text). \<exists>bs. toSJISArray_module W c = Inr bs) \<longrightarrow>
        (\<exists>ms. analyzeText_module W text = Inr ms))
   \<and> ((\<exists>c \<in> set (array_from text). \<exists>e. toSJISArray_module W c = Inl e) \<longrightarrow>
        (\<exists>e. analyzeText_module W text = Inl e) \<and> (\<exists>rs. analyzeText W text = Inr rs))
   \<and> (\<exists>ms. analyzeText_module None text = Inr ms)"
proof (intro conjI impI)
  assume ms: "analyzeText_module W text = Inr ms"
  obtain rs where rs: "analyzeText W text = Inr rs" using analyzeText_total by blast
  have len: "length rs = length ms"
    using ms rs by (simp add: analyzeText_module_Inr_iff analyzeText_length)
  have "\<forall>j < length ms. char_f (rs ! j) = m_char (ms ! j)
               \<and> codePoint (rs ! j) = m_codePoint (ms ! j)
               \<and> bytes (utf8 (rs ! j)) = m_bytes (m_utf8 (ms ! j))
               \<and> hex (utf8 (rs ! j)) = m_hex (m_utf8 (ms ! j))
               \<and> binary (utf8 (rs ! j)) = m_binary (m_utf8 (ms ! j))"
  proof (intro allI impI)
    fix j assume "j < length ms"
    then have j: "j < length (array_from text)" using ms by (simp add: analyzeText_module_Inr_iff)
    then have m: "analyzeChar_module W (array_from text ! j) j = Inr (ms ! j)"
      using ms by (simp add: analyzeText_module_Inr_iff)
    note f = analyzeText_fields [OF rs j]
    note g = analyzeChar_module_Inr [OF m]
    from f(3) g(2) have "codePoint (rs ! j) = m_codePoint (ms ! j)" by auto
    with f(2,4,6,7) g(1,3,4,5)
    show "char_f (rs ! j) = m_char (ms ! j)
               \<and> codePoint (rs ! j) = m_codePoint (ms ! j)
               \<and> bytes (utf8 (rs ! j)) = m_bytes (m_utf8 (ms ! j))
               \<and> hex (utf8 (rs ! j)) = m_hex (m_utf8 (ms ! j))
               \<and> binary (utf8 (rs ! j)) = m_binary (m_utf8 (ms ! j))" by simp
  qed
  with rs len show "\<exists>rs. analyzeText W text = Inr rs \<and> length rs = length ms
         \<and> (\<forall>j < length ms. char_f (rs ! j) = m_char (ms ! j)
               \<and> codePoint (rs ! j) = m_codePoint (ms ! j)
               \<and> bytes (utf8 (rs ! j)) = m_bytes (m_utf8 (ms ! j))
               \<and> hex (utf8 (rs ! j)) = m_hex (m_utf8 (ms ! j))
               \<and> binary (utf8 (rs ! j)) = m_binary (m_utf8 (ms ! j)))"
    by (intro exI conjI)
next
  assume a: "\<forall>c \<in> set (array_from text). \<exists>bs. toSJISArray_module W c = Inr bs"
  show "\<exists>ms. analyzeText_module W text = Inr ms"
  proof (cases "text = []")
    case True
    then show ?thesis by (simp add: analyzeText_module_def)
  next
    case False
    have "\<forall>j < length (array_from text).
        \<exists>y. analyzeChar_module W (array_from text ! j) (0 + j) = Inr y"
    proof (intro allI impI)
      fix j assume j: "j < length (array_from text)"
      then have ne: "array_from text ! j \<noteq> []"
        using array_from_nonempty [of "array_from text ! j" "text"] by simp
      from j a obtain bs where "toSJISArray_module W (array_from text ! j) = Inr bs"
        using nth_mem by blast
      with ne show "\<exists>y. analyzeChar_module W (array_from text ! j) (0 + j) = Inr y"
        by (rule analyzeChar_module_returns)
    qed
    then have "\<exists>ys. map_indexed (analyzeChar_module W) 0 (array_from text) = Inr ys"
      by (rule map_indexed_total)
    with False show ?thesis by (simp add: analyzeText_module_def)
  qed
next
  assume "\<exists>c \<in> set (array_from text). \<exists>e. toSJISArray_module W c = Inl e"
  then obtain j e where j: "j < length (array_from text)"
    and e: "toSJISArray_module W (array_from text ! j) = Inl e"
    by (auto simp: in_set_conv_nth)
  from j have ne: "text \<noteq> []" by auto
  from e have "analyzeChar_module W (array_from text ! j) (0 + j) = Inl e"
    by (rule analyzeChar_module_throws)
  with j have "\<exists>e'. map_indexed (analyzeChar_module W) 0 (array_from text) = Inl e'"
    by (rule map_indexed_throws)
  with ne show "\<exists>e. analyzeText_module W text = Inl e" by (simp add: analyzeText_module_def)
next
  show "\<exists>rs. analyzeText W text = Inr rs" by (rule analyzeText_total)
next
  have "\<forall>j < length (array_from text).
      \<exists>y. analyzeChar_module None (array_from text ! j) (0 + j) = Inr y"
  proof (intro allI impI)
    fix j assume j: "j < length (array_from text)"
    then have ne: "array_from text ! j \<noteq> []"
      using array_from_nonempty [of "array_from text ! j" "text"] by simp
    have "toSJISArray_module None (array_from text ! j) = Inr []"
      by (simp add: toSJISArray_module_def)
    with ne show "\<exists>y. analyzeChar_module None (array_from text ! j) (0 + j) = Inr y"
      by (rule analyzeChar_module_returns)
  qed
  then have "\<exists>ys. map_indexed (analyzeChar_module None) 0 (array_from text) = Inr ys"
    by (rule map_indexed_total)
  then show "\<exists>ms. analyzeText_module None text = Inr ms"
    by (cases "text = []") (simp_all add: analyzeText_module_def)
qed

theorem module_and_inlined_agree_witness:
  "analyzeText_module (Some table_lib) [0x3042] = Inr sample_module_analysis
   \<and> (\<exists>rs. analyzeText (Some table_lib) [0x3042] = Inr rs \<and> length rs = 1
         \<and> char_f (rs ! 0) = [0x3042] \<and> codePoint (rs ! 0) = ''U+3042''
         \<and> bytes (utf8 (rs ! 0)) = [0xE3, 0x81, 0x82] \<and> hex (utf8 (rs ! 0)) = ''E3 81 82''
         \<and> binary (utf8 (rs ! 0)) = ''11100011 10000001 10000010'')"
proof -
  have m: "analyzeText_module (Some table_lib) [0x3042] = Inr sample_module_analysis"
    by (simp add: analyzeText_module_def analyzeChar_module_def toSJISArray_module_def
        toHexString_module_def toBinaryString_module_def sample_module_analysis_def
        eval_defs table_lib_def)
  from module_and_inlined_agree [of "Some table_lib" "[0x3042]" sample_module_analysis] m
  obtain rs where rs: "analyzeText (Some table_lib) [0x3042] = Inr rs"
    and len: "length rs = length sample_module_analysis"
    and ag: "\<forall>j < length sample_module_analysis.
               char_f (rs ! j) = m_char (sample_module_analysis ! j)
               \<and> codePoint (rs ! j) = m_codePoint (sample_module_analysis ! j)
               \<and> bytes (utf8 (rs ! j)) = m_bytes (m_utf8 (sample_module_analysis ! j))
               \<and> hex (utf8 (rs ! j)) = m_hex (m_utf8 (sample_module_analysis ! j))
               \<and> binary (utf8 (rs ! j)) = m_binary (m_utf8 (sample_module_analysis ! j))"
    by blast
  from len have 1: "length rs = 1" by (simp add: sample_module_analysis_def)
  from ag have "char_f (rs ! 0) = [0x3042] \<and> codePoint (rs ! 0) = ''U+3042''
         \<and> bytes (utf8 (rs ! 0)) = [0xE3, 0x81, 0x82] \<and> hex (utf8 (rs ! 0)) = ''E3 81 82''
         \<and> binary (utf8 (rs ! 0)) = ''11100011 10000001 10000010''"
    by (simp add: sample_module_analysis_def)
  with m rs 1 show ?thesis by blast
qed

text \<open>
  Claim C10 as stated fails with a library that throws: the module version throws on the
  letter A and returns no sequence, while the inlined version returns one record.
\<close>

theorem module_throws_where_inlined_returns:
  "analyzeText_module (Some throwing_lib) [0x41] = Inl LibraryError
   \<and> analyzeText (Some throwing_lib) [0x41] = Inr
       [\<lparr> id_f = 0, char_f = [0x41], codePoint = ''U+0041'',
           utf8 = \<lparr> bytes = [0x41], length_f = 1, hex = ''41'', binary = ''01000001'' \<rparr>,
           sjis = \<lparr> bytes = [], length_f = 0, hex = [], binary = [], isValid = JNull \<rparr> \<rparr>]"
  by (simp add: analyzeText_module_def analyzeChar_module_def toSJISArray_module_def
      eval_defs throwing_lib_def)

end
